theory Spec2Isabelle
  imports Main "HOL-Library.Multiset" "HOL-Library.Sublist"
begin

section \<open>Data model\<close>

text \<open>
  The records follow the Go structs that \<^verbatim>\<open>local/compose/down.go\<close> reads:
  \<^verbatim>\<open>moby.Container\<close> (identifier, names, labels), \<^verbatim>\<open>moby.NetworkResource\<close>
  (identifier, name), \<^verbatim>\<open>types.ServiceConfig\<close> (name, dependencies),
  \<^verbatim>\<open>types.Project\<close> (name, services), \<^verbatim>\<open>cli.ProjectOptions\<close> and
  \<^verbatim>\<open>compose.DownOptions\<close>. Only the fields the file touches are kept.
  A Go \<^verbatim>\<open>map[string]string\<close> is a partial map; a nil pointer is \<open>None\<close>.
\<close>

record Container =
  ID :: string
  Names :: "string list"
  Labels :: "string \<rightharpoonup> string"

record Network =
  ID :: string
  Name :: string

record ServiceConfig =
  Name :: string
  DependsOn :: "string list"

record Project =
  Name :: string
  Services :: "ServiceConfig list"

record ProjectOptions =
  Name :: string
  WorkingDir :: string
  ConfigPaths :: "string list"

record DownOptions =
  Project :: "Project option"
  RemoveOrphans :: bool

text \<open>
  A Go \<^verbatim>\<open>error\<close> value returned by a collaborator is an \<open>error\<close>; \<open>nil\<close> is
  \<open>None\<close>. A call of this file ends without a value either by returning such an error
  or by the run-time panic of an index out of range.
\<close>

datatype error = Err string | CycleError

datatype abort = Error error | IndexOutOfRange

text \<open>
  The progress events of \<^verbatim>\<open>api/progress\<close> that the file emits, and everything
  the file does to the outside world: a call of the runtime client, a call of
  \<^verbatim>\<open>ensureNetworkDown\<close>, an event handed to the progress writer.
\<close>

datatype event =
    StoppingEvent string
  | StoppedEvent string
  | RemovingEvent string
  | RemovedEvent string
  | ErrorMessageEvent string string

datatype action =
    ContainerListCall string
  | ContainerStopCall string
  | ContainerRemoveCall string
  | NetworkListCall string
  | EnsureNetworkDownCall string string
  | Event event

text \<open>
  The receiver \<^verbatim>\<open>s *composeService\<close> with what lies outside the file: the runtime
  client \<^verbatim>\<open>s.apiClient\<close> (a listing takes the project name handed to
  \<^verbatim>\<open>projectFilter\<close>, a stop or removal takes the container identifier), the method
  \<^verbatim>\<open>ensureNetworkDown\<close> and the helper \<^verbatim>\<open>getCanonicalContainerName\<close> of the
  package, and the parser \<^verbatim>\<open>cli.ProjectFromOptions\<close> of compose-go. They are
  parameters; a call answers the same whenever it is asked the same.
\<close>

record composeService =
  ContainerList :: "string \<Rightarrow> error + Container list"
  ContainerStop :: "string \<Rightarrow> error option"
  ContainerRemove :: "string \<Rightarrow> error option"
  NetworkList :: "string \<Rightarrow> error + Network list"
  ensureNetworkDown :: "string \<Rightarrow> string \<Rightarrow> error option"
  getCanonicalContainerName :: "Container \<Rightarrow> string"
  ProjectFromOptions :: "ProjectOptions \<Rightarrow> error + Project"

section \<open>Labels\<close>

text \<open>
  The label keys \<^verbatim>\<open>projectLabel\<close>, \<^verbatim>\<open>serviceLabel\<close>, \<^verbatim>\<open>configFilesLabel\<close>
  and \<^verbatim>\<open>workingDirLabel\<close> are constants of the package declared outside
  \<^verbatim>\<open>down.go\<close>. No general theorem below depends on their spelling.
\<close>

text \<open>Modelled from the spec: the key of the project-name label.\<close>

definition projectLabel :: string where
  "projectLabel = ''com.docker.compose.project''"

text \<open>Modelled from the spec: the key of the service-name label.\<close>

definition serviceLabel :: string where
  "serviceLabel = ''com.docker.compose.service''"

text \<open>Modelled from the spec: the key of the comma-separated declaration-file-paths label.\<close>

definition configFilesLabel :: string where
  "configFilesLabel = ''com.docker.compose.project.config_files''"

text \<open>Modelled from the spec: the key of the working-directory label.\<close>

definition workingDirLabel :: string where
  "workingDirLabel = ''com.docker.compose.project.working_dir''"

text \<open>Reading a Go map at a key it does not hold gives the empty string.\<close>

definition label :: "Container \<Rightarrow> string \<Rightarrow> string" where
  "label c k = (case Labels c k of None \<Rightarrow> [] | Some v \<Rightarrow> v)"

section \<open>Recovering the project options from labels\<close>

text \<open>
  \<^verbatim>\<open>strings.Split(s, ",")\<close>: the separator is the one byte \<^verbatim>\<open>,\<close>. The pieces between
  separators, in order; the empty string gives one empty piece.
\<close>

fun Split :: "string \<Rightarrow> char \<Rightarrow> string list" where
  "Split [] sep = [[]]"
| "Split (x # xs) sep =
     (if x = sep then [] # Split xs sep
      else (case Split xs sep of
              [] \<Rightarrow> [[x]]
            | w # ws \<Rightarrow> (x # w) # ws))"

text \<open>
  \<^verbatim>\<open>filepath.Base\<close> on a system whose separator is \<^verbatim>\<open>/\<close>: the empty path gives
  \<^verbatim>\<open>.\<close>; trailing separators are dropped, then everything up to the last separator;
  a path of separators only gives \<^verbatim>\<open>/\<close>.
\<close>

definition Base :: "string \<Rightarrow> string" where
  "Base path =
     (if path = [] then ''.''
      else
        let stripped = rev (dropWhile (\<lambda>ch. ch = CHR ''/'') (rev path));
            lastElem = rev (takeWhile (\<lambda>ch. ch \<noteq> CHR ''/'') (rev stripped))
        in if lastElem = [] then ''/'' else lastElem)"

text \<open>
  \<^verbatim>\<open>cli.NewProjectOptions(configs, opts...)\<close> of compose-go stores the configuration
  paths and applies the option functions in order, stopping at the first that fails.
  \<^verbatim>\<open>WithWorkingDirectory\<close> and \<^verbatim>\<open>WithName\<close> set a field; \<^verbatim>\<open>WithOsEnv\<close> fills
  the environment, which is not among the fields kept here.
\<close>

type_synonym ProjectOptionsFn = "ProjectOptions \<Rightarrow> error + ProjectOptions"

definition WithOsEnv :: ProjectOptionsFn where
  "WithOsEnv o' = Inr o'"

definition WithWorkingDirectory :: "string \<Rightarrow> ProjectOptionsFn" where
  "WithWorkingDirectory wd o' = Inr (o'\<lparr>WorkingDir := wd\<rparr>)"

definition WithName :: "string \<Rightarrow> ProjectOptionsFn" where
  "WithName name o' = Inr (o'\<lparr>ProjectOptions.Name := name\<rparr>)"

fun applyOptions :: "ProjectOptionsFn list \<Rightarrow> ProjectOptions \<Rightarrow> error + ProjectOptions" where
  "applyOptions [] options = Inr options"
| "applyOptions (f # fs) options =
     (case f options of
        Inl err \<Rightarrow> Inl err
      | Inr options' \<Rightarrow> applyOptions fs options')"

definition NewProjectOptions :: "string list \<Rightarrow> ProjectOptionsFn list \<Rightarrow> error + ProjectOptions" where
  "NewProjectOptions configs opts =
     applyOptions opts \<lparr>ProjectOptions.Name = [], WorkingDir = [], ConfigPaths = configs\<rparr>"

text \<open>
  \<^verbatim>\<open>loadProjectOptionsFromLabels\<close>: the config-files label is split at commas, every
  piece is base-named, and the options are built from the pieces, the working-directory
  label and the project label.
\<close>

definition loadProjectOptionsFromLabels :: "Container \<Rightarrow> error + ProjectOptions" where
  "loadProjectOptionsFromLabels c =
     (let relativePathConfigFiles = Split (label c configFilesLabel) CHR '','';
          configFiles = map Base relativePathConfigFiles
      in NewProjectOptions configFiles
           [WithOsEnv,
            WithWorkingDirectory (label c workingDirLabel),
            WithName (label c projectLabel)])"

section \<open>Reconstructing the project\<close>

text \<open>
  \<^verbatim>\<open>projectFromContainerLabels\<close>. The result comes with the calls made. Indexing an
  empty \<^verbatim>\<open>ConfigPaths\<close> would panic, which the model writes out.
\<close>

definition fakeServices :: "Container list \<Rightarrow> ServiceConfig list" where
  "fakeServices containers =
     foldl (\<lambda>services container.
              services @ [\<lparr>ServiceConfig.Name = label container serviceLabel, DependsOn = []\<rparr>])
       [] containers"

definition projectFromContainerLabels ::
  "composeService \<Rightarrow> string \<Rightarrow> (abort + Project) \<times> action list" where
  "projectFromContainerLabels s projectName =
     (case ContainerList s projectName of
        Inl err \<Rightarrow> (Inl (Error err), [ContainerListCall projectName])
      | Inr containers \<Rightarrow>
          (let fakeProject = \<lparr>Project.Name = projectName, Services = []\<rparr>
           in (case containers of
                 [] \<Rightarrow> Inr fakeProject
               | c0 # _ \<Rightarrow>
                   (case loadProjectOptionsFromLabels c0 of
                      Inl err \<Rightarrow> Inl (Error err)
                    | Inr options \<Rightarrow>
                        (case ConfigPaths options of
                           [] \<Rightarrow> Inl IndexOutOfRange
                         | path0 # _ \<Rightarrow>
                             if path0 = ''-''
                             then Inr (fakeProject\<lparr>Services := fakeServices containers\<rparr>)
                             else (case ProjectFromOptions s options of
                                     Inl err \<Rightarrow> Inl (Error err)
                                   | Inr project \<Rightarrow> Inr project)))),
              [ContainerListCall projectName]))"

section \<open>Resource set and dependency order\<close>

text \<open>
  Modelled from the spec: \<^verbatim>\<open>Containers.split\<close> is defined outside \<^verbatim>\<open>down.go\<close>,
  which only calls it. The spec: given a predicate, split returns (matching,
  non-matching) as two new ordered sequences, preserving relative order, without
  changing its input.
\<close>

fun split :: "Container list \<Rightarrow> (Container \<Rightarrow> bool) \<Rightarrow> Container list \<times> Container list" where
  "split [] predicate = ([], [])"
| "split (c # cs) predicate =
     (let (matched, remainder) = split cs predicate
      in if predicate c then (c # matched, remainder) else (matched, c # remainder))"

text \<open>
  Modelled from the spec: \<^verbatim>\<open>isService\<close> is defined outside \<^verbatim>\<open>down.go\<close>. The
  spec: a predicate over the service name; the one built from the name of a service
  holds of the containers whose service-name label is that name.
\<close>

definition isService :: "string \<Rightarrow> Container \<Rightarrow> bool" where
  "isService name c = (label c serviceLabel = name)"

text \<open>
  \<^verbatim>\<open>InReverseDependencyOrder\<close> is defined outside \<^verbatim>\<open>down.go\<close>, which only calls
  it. The spec: the action is invoked once per declared service, one service after the
  other; a service is processed only once everything depending on it is gone, services
  nothing else depends on first; a dependency graph with a cycle fails with CycleError
  and no action is invoked; when an action fails, no further action is launched and its
  error is returned.
\<close>

text \<open>
  Modelled from the spec: a service is depended on when the dependency references of
  some service still present name it.
\<close>

definition dependedOn :: "ServiceConfig list \<Rightarrow> ServiceConfig \<Rightarrow> bool" where
  "dependedOn services svc =
     (\<exists>t \<in> set services. ServiceConfig.Name svc \<in> set (DependsOn t))"

text \<open>
  Modelled from the spec: the order of the walk. Round after round, the services that
  no service still present depends on are taken, in the order of their declaration;
  when services remain and every one of them is depended on, the graph has a cycle and
  there is no order.
\<close>

function reverseOrder :: "ServiceConfig list \<Rightarrow> ServiceConfig list option" where
  "reverseOrder services =
     (if services = [] then Some []
      else if filter (\<lambda>svc. \<not> dependedOn services svc) services = [] then None
      else (case reverseOrder (filter (dependedOn services) services) of
              None \<Rightarrow> None
            | Some later \<Rightarrow> Some (filter (\<lambda>svc. \<not> dependedOn services svc) services @ later)))"
  by pat_completeness auto
termination
proof (relation "measure length")
  show "wf (measure length)" by simp
next
  fix services :: "ServiceConfig list"
  assume "filter (\<lambda>svc. \<not> dependedOn services svc) services \<noteq> []"
  then have "0 < length (filter (\<lambda>svc. \<not> dependedOn services svc) services)"
    by simp
  moreover have "length services =
      length (filter (dependedOn services) services)
      + length (filter (\<lambda>svc. \<not> dependedOn services svc) services)"
    by (rule sum_length_filter_compl [symmetric])
  ultimately show "(filter (dependedOn services) services, services) \<in> measure length"
    by simp
qed

declare reverseOrder.simps [simp del]

text \<open>
  Modelled from the spec: the actions run one after the other on a state that each
  hands to the next; the first error ends the walk.
\<close>

fun runActions ::
  "(ServiceConfig \<Rightarrow> 'st \<Rightarrow> error option \<times> 'st) \<Rightarrow> ServiceConfig list \<Rightarrow> 'st
     \<Rightarrow> error option \<times> 'st" where
  "runActions fn [] st = (None, st)"
| "runActions fn (service # later) st =
     (case fn service st of
        (Some err, st') \<Rightarrow> (Some err, st')
      | (None, st') \<Rightarrow> runActions fn later st')"

text \<open>
  Modelled from the spec: \<^verbatim>\<open>InReverseDependencyOrder\<close>, the walk in the order
  above, or CycleError before any action.
\<close>

definition InReverseDependencyOrder ::
  "Project \<Rightarrow> (ServiceConfig \<Rightarrow> 'st \<Rightarrow> error option \<times> 'st) \<Rightarrow> 'st \<Rightarrow> error option \<times> 'st" where
  "InReverseDependencyOrder project fn st =
     (case reverseOrder (Services project) of
        None \<Rightarrow> (Some CycleError, st)
      | Some order \<Rightarrow> runActions fn order st)"

section \<open>Task groups\<close>

text \<open>
  Both \<^verbatim>\<open>removeContainers\<close> and the network sweep of \<^verbatim>\<open>Down\<close> have the shape
  \<^verbatim>\<open>
  eg, _ := errgroup.WithContext(ctx)
  for _, x := range xs { ...; eg.Go(func() error { ... }) }
  return eg.Wait()
  \<close>
  The loop and the goroutines it starts run interleaved. The state of such a group:
  the loop variable \<^verbatim>\<open>x\<close>, which the file's Go version declares once for the whole
  loop and assigns at every iteration; the elements still to iterate; the goroutines
  started so far; the first error a goroutine returned (what \<^verbatim>\<open>eg.Wait\<close> returns; the
  context derived by \<^verbatim>\<open>WithContext\<close> is dropped, so nothing is cancelled); the actions
  performed so far, in the order they happened.

  A schedule says whose turn it is: the loop's, to run one iteration, or a goroutine's,
  to run up to its next action. A turn given to a loop that has ended, or to a goroutine
  that does not exist or has returned, changes nothing. When the schedule is used up,
  the loop runs to its end and then every goroutine in turn runs to its return, so
  that every schedule describes a complete run, and \<^verbatim>\<open>eg.Wait\<close> returns after it.
\<close>

datatype turn = Loop | Goroutine nat

record ('v, 'g) group =
  loopVar :: "'v option"
  pending :: "'v list"
  goroutines :: "'g list"
  firstErr :: "error option"
  trace :: "action list"

definition iterate :: "('v \<Rightarrow> 'g) \<Rightarrow> ('v, 'g) group \<Rightarrow> ('v, 'g) group" where
  "iterate spawn st =
     (case pending st of
        [] \<Rightarrow> st
      | x # xs \<Rightarrow> st\<lparr>loopVar := Some x, pending := xs, goroutines := goroutines st @ [spawn x]\<rparr>)"

definition advance ::
  "('v option \<Rightarrow> 'g \<Rightarrow> 'g \<times> action list \<times> error option) \<Rightarrow> nat \<Rightarrow> ('v, 'g) group
     \<Rightarrow> ('v, 'g) group" where
  "advance stepG j st =
     (if j < length (goroutines st)
      then (case stepG (loopVar st) (goroutines st ! j) of
              (g', acts, returned) \<Rightarrow>
                st\<lparr>goroutines := (goroutines st)[j := g'],
                   trace := trace st @ acts,
                   firstErr := (case firstErr st of None \<Rightarrow> returned | Some err \<Rightarrow> Some err)\<rparr>)
      else st)"

fun step ::
  "('v \<Rightarrow> 'g) \<Rightarrow> ('v option \<Rightarrow> 'g \<Rightarrow> 'g \<times> action list \<times> error option)
     \<Rightarrow> ('v, 'g) group \<Rightarrow> turn \<Rightarrow> ('v, 'g) group" where
  "step spawn stepG st Loop = iterate spawn st"
| "step spawn stepG st (Goroutine j) = advance stepG j st"

definition completion :: "nat \<Rightarrow> nat \<Rightarrow> nat \<Rightarrow> turn list" where
  "completion bound todo started =
     replicate todo Loop
     @ concat (map (\<lambda>j. replicate bound (Goroutine j)) [0 ..< started + todo])"

definition runGroup ::
  "('v \<Rightarrow> 'g) \<Rightarrow> ('v option \<Rightarrow> 'g \<Rightarrow> 'g \<times> action list \<times> error option) \<Rightarrow> nat
     \<Rightarrow> 'v list \<Rightarrow> turn list \<Rightarrow> ('v, 'g) group" where
  "runGroup spawn stepG bound xs schedule =
     (let st0 = \<lparr>loopVar = None, pending = xs, goroutines = [], firstErr = None, trace = []\<rparr>;
          st1 = foldl (step spawn stepG) st0 schedule
      in foldl (step spawn stepG) st1
           (completion bound (length (pending st1)) (length (goroutines st1))))"

section \<open>Container teardown\<close>

text \<open>
  The goroutine that \<^verbatim>\<open>removeContainers\<close> starts for a container. It holds its own
  copy \<^verbatim>\<open>toDelete\<close> of the container, made by the loop body before \<^verbatim>\<open>eg.Go\<close>.
  Where it stands:
  \<^item> \<open>Started\<close>: before line 113, where it reads the loop variable \<^verbatim>\<open>container\<close> to
    build the one-element slice handed to \<^verbatim>\<open>stopContainers\<close>;
  \<^item> \<open>AtStopping c\<close>, \<open>AtStop c\<close>, \<open>AfterStop c r\<close>: inside \<^verbatim>\<open>stopContainers\<close> on the
    container \<open>c\<close> it was handed, before line 96, before line 97, and after line 97
    with the runtime's answer \<open>r\<close>;
  \<^item> \<open>AtRemoving\<close>, \<open>AtRemove\<close>, \<open>AfterRemove r\<close>: before line 117, before line 118,
    and after line 118 with the runtime's answer;
  \<^item> \<open>Returning r\<close>: about to return \<open>r\<close> to the group; \<open>Returned\<close>: done.
\<close>

datatype pc =
    Started
  | AtStopping Container
  | AtStop Container
  | AfterStop Container "error option"
  | AtRemoving
  | AtRemove
  | AfterRemove "error option"
  | Returning "error option"
  | Returned

record goroutine =
  toDelete :: Container
  at :: pc

definition eventName :: "composeService \<Rightarrow> Container \<Rightarrow> string" where
  "eventName s c = ''Container '' @ getCanonicalContainerName s c"

text \<open>
  \<^verbatim>\<open>stopContainers\<close>, run on its own: the containers are stopped one after the other,
  and the first failure ends the loop. \<^verbatim>\<open>removeContainers\<close> calls it from a goroutine
  with a slice of one container; there its three actions are three turns of the
  goroutine.
\<close>

fun stopContainers :: "composeService \<Rightarrow> Container list \<Rightarrow> error option \<times> action list" where
  "stopContainers s [] = (None, [])"
| "stopContainers s (toStop # rest) =
     (case ContainerStop s (Container.ID toStop) of
        Some err \<Rightarrow>
          (Some err,
           [Event (StoppingEvent (eventName s toStop)),
            ContainerStopCall (Container.ID toStop),
            Event (ErrorMessageEvent (eventName s toStop) ''Error while Stopping'')])
      | None \<Rightarrow>
          (case stopContainers s rest of
             (err, acts) \<Rightarrow>
               (err,
                [Event (StoppingEvent (eventName s toStop)),
                 ContainerStopCall (Container.ID toStop),
                 Event (StoppedEvent (eventName s toStop))] @ acts)))"

definition spawnRemove :: "Container \<Rightarrow> goroutine" where
  "spawnRemove container = \<lparr>toDelete = container, at = Started\<rparr>"

fun stepAt ::
  "composeService \<Rightarrow> Container option \<Rightarrow> Container \<Rightarrow> pc \<Rightarrow> pc \<times> action list \<times> error option" where
  "stepAt s None mine Started = (Started, [], None)"
| "stepAt s (Some container) mine Started = (AtStopping container, [], None)"
| "stepAt s v mine (AtStopping toStop) =
     (AtStop toStop, [Event (StoppingEvent (eventName s toStop))], None)"
| "stepAt s v mine (AtStop toStop) =
     (AfterStop toStop (ContainerStop s (Container.ID toStop)),
      [ContainerStopCall (Container.ID toStop)], None)"
| "stepAt s v mine (AfterStop toStop (Some err)) =
     (Returning (Some err),
      [Event (ErrorMessageEvent (eventName s toStop) ''Error while Stopping'')], None)"
| "stepAt s v mine (AfterStop toStop None) =
     (AtRemoving, [Event (StoppedEvent (eventName s toStop))], None)"
| "stepAt s v mine AtRemoving =
     (AtRemove, [Event (RemovingEvent (eventName s mine))], None)"
| "stepAt s v mine AtRemove =
     (AfterRemove (ContainerRemove s (Container.ID mine)),
      [ContainerRemoveCall (Container.ID mine)], None)"
| "stepAt s v mine (AfterRemove (Some err)) =
     (Returning (Some err),
      [Event (ErrorMessageEvent (eventName s mine) ''Error while Removing'')], None)"
| "stepAt s v mine (AfterRemove None) =
     (Returning None, [Event (RemovedEvent (eventName s mine))], None)"
| "stepAt s v mine (Returning r) = (Returned, [], r)"
| "stepAt s v mine Returned = (Returned, [], None)"

definition stepRemove ::
  "composeService \<Rightarrow> Container option \<Rightarrow> goroutine \<Rightarrow> goroutine \<times> action list \<times> error option" where
  "stepRemove s v g =
     (case stepAt s v (toDelete g) (at g) of
        (pc', acts, returned) \<Rightarrow> (g\<lparr>at := pc'\<rparr>, acts, returned))"

text \<open>
  \<^verbatim>\<open>removeContainers\<close>: the error \<^verbatim>\<open>eg.Wait\<close> returns and the actions performed. A
  goroutine returns within eight turns of its own.
\<close>

definition removeContainers ::
  "composeService \<Rightarrow> Container list \<Rightarrow> turn list \<Rightarrow> error option \<times> action list" where
  "removeContainers s containers schedule =
     (let st = runGroup spawnRemove (stepRemove s) 8 containers schedule
      in (firstErr st, trace st))"

section \<open>Network sweep\<close>

text \<open>
  The goroutine started for a network holds its copies \<^verbatim>\<open>networkID\<close> and
  \<^verbatim>\<open>networkName\<close>, made by the loop body, and calls \<^verbatim>\<open>ensureNetworkDown\<close> on them.
  What that method does inside is outside \<^verbatim>\<open>down.go\<close>; here it is one action.
\<close>

record netGoroutine =
  networkID :: string
  networkName :: string
  finished :: bool

definition spawnNetworkDown :: "Network \<Rightarrow> netGoroutine" where
  "spawnNetworkDown n = \<lparr>networkID = Network.ID n, networkName = Network.Name n, finished = False\<rparr>"

definition stepNetworkDown ::
  "composeService \<Rightarrow> Network option \<Rightarrow> netGoroutine
     \<Rightarrow> netGoroutine \<times> action list \<times> error option" where
  "stepNetworkDown s v g =
     (if finished g then (g, [], None)
      else (g\<lparr>finished := True\<rparr>,
            [EnsureNetworkDownCall (networkID g) (networkName g)],
            ensureNetworkDown s (networkID g) (networkName g)))"

definition removeNetworks ::
  "composeService \<Rightarrow> Network list \<Rightarrow> turn list \<Rightarrow> error option \<times> action list" where
  "removeNetworks s networks schedule =
     (let st = runGroup spawnNetworkDown (stepNetworkDown s) 1 networks schedule
      in (firstErr st, trace st))"

section \<open>Down\<close>

text \<open>
  \<^verbatim>\<open>Down\<close>, in the order of the source. Besides its arguments it takes the schedules of
  the task groups it runs: one per call of \<^verbatim>\<open>removeContainers\<close>, taken from the front
  of a list (the empty schedule when the list is used up), and one for the network sweep.
  It returns the error, if any, and the actions performed.

  Lines 38 to 44: a project that was not supplied is reconstructed.
\<close>

definition resolveProject ::
  "composeService \<Rightarrow> string \<Rightarrow> DownOptions \<Rightarrow> (abort + Project) \<times> action list" where
  "resolveProject s projectName options =
     (case Project options of
        None \<Rightarrow> projectFromContainerLabels s projectName
      | Some project \<Rightarrow> (Inr project, []))"

text \<open>
  Lines 55 to 60: the action handed to the executor. The variable \<^verbatim>\<open>containers\<close> of
  \<^verbatim>\<open>Down\<close>, which the closure narrows at every call, is part of the state.
\<close>

record downState =
  containers :: "Container list"
  schedules :: "turn list list"
  performed :: "action list"

definition serviceAction ::
  "composeService \<Rightarrow> ServiceConfig \<Rightarrow> downState \<Rightarrow> error option \<times> downState" where
  "serviceAction s service st =
     (case split (containers st) (isService (ServiceConfig.Name service)) of
        (serviceContainers, others) \<Rightarrow>
          (case removeContainers s serviceContainers
                  (case schedules st of [] \<Rightarrow> [] | schedule # _ \<Rightarrow> schedule) of
             (err, acts) \<Rightarrow>
               (err, \<lparr>containers = others,
                      schedules = tl (schedules st),
                      performed = performed st @ acts\<rparr>)))"

text \<open>Lines 65 to 70: the containers left over are removed when the option asks for it.\<close>

definition removeOrphans ::
  "composeService \<Rightarrow> DownOptions \<Rightarrow> downState \<Rightarrow> error option \<times> action list" where
  "removeOrphans s options st =
     (if RemoveOrphans options \<and> length (containers st) > 0
      then removeContainers s (containers st)
             (case schedules st of [] \<Rightarrow> [] | schedule # _ \<Rightarrow> schedule)
      else (None, []))"

text \<open>Lines 72 to 89: the networks of the project are listed and taken down.\<close>

definition networkSweep ::
  "composeService \<Rightarrow> string \<Rightarrow> turn list \<Rightarrow> error option \<times> action list" where
  "networkSweep s projectName netSchedule =
     (case NetworkList s projectName of
        Inl err \<Rightarrow> (Some err, [NetworkListCall projectName])
      | Inr networks \<Rightarrow>
          (case removeNetworks s networks netSchedule of
             (err, acts) \<Rightarrow> (err, NetworkListCall projectName # acts)))"

definition Down ::
  "composeService \<Rightarrow> string \<Rightarrow> DownOptions \<Rightarrow> turn list list \<Rightarrow> turn list
     \<Rightarrow> abort option \<times> action list" where
  "Down s projectName options containerSchedules netSchedule =
     (case resolveProject s projectName options of
        (Inl failure, t0) \<Rightarrow> (Some failure, t0)
      | (Inr project, t0) \<Rightarrow>
          (case ContainerList s (Project.Name project) of
             Inl err \<Rightarrow> (Some (Error err), t0 @ [ContainerListCall (Project.Name project)])
           | Inr listed \<Rightarrow>
               (case InReverseDependencyOrder project (serviceAction s)
                       \<lparr>containers = listed,
                        schedules = containerSchedules,
                        performed = t0 @ [ContainerListCall (Project.Name project)]\<rparr> of
                  (Some err, st) \<Rightarrow> (Some (Error err), performed st)
                | (None, st) \<Rightarrow>
                    (case removeOrphans s options st of
                       (Some err, acts) \<Rightarrow> (Some (Error err), performed st @ acts)
                     | (None, acts) \<Rightarrow>
                         (case networkSweep s projectName netSchedule of
                            (err, nacts) \<Rightarrow>
                              (map_option Error err, performed st @ acts @ nacts))))))"

section \<open>What a run touches\<close>

text \<open>
  The resource an event names; whether an action is aimed at a given container (a stop or
  a removal of its identifier, or an event that carries its display name); whether a
  container belongs to a service the project declares; the events of a run that name a
  given resource, in the order they were emitted.
\<close>

fun resource :: "event \<Rightarrow> string" where
  "resource (StoppingEvent n) = n"
| "resource (StoppedEvent n) = n"
| "resource (RemovingEvent n) = n"
| "resource (RemovedEvent n) = n"
| "resource (ErrorMessageEvent n m) = n"

definition touches :: "composeService \<Rightarrow> Container \<Rightarrow> action \<Rightarrow> bool" where
  "touches s c a =
     (case a of
        ContainerStopCall i \<Rightarrow> i = Container.ID c
      | ContainerRemoveCall i \<Rightarrow> i = Container.ID c
      | Event ev \<Rightarrow> resource ev = eventName s c
      | _ \<Rightarrow> False)"

definition declared :: "Project \<Rightarrow> Container \<Rightarrow> bool" where
  "declared project c = (label c serviceLabel \<in> set (map ServiceConfig.Name (Services project)))"

fun held :: "pc \<Rightarrow> Container list" where
  "held (AtStopping c) = [c]"
| "held (AtStop c) = [c]"
| "held (AfterStop c r) = [c]"
| "held p = []"

text \<open>The turns a goroutine of \<^verbatim>\<open>removeContainers\<close> still needs before it has returned.\<close>

fun turnsLeft :: "pc \<Rightarrow> nat" where
  "turnsLeft Started = 8"
| "turnsLeft (AtStopping c) = 7"
| "turnsLeft (AtStop c) = 6"
| "turnsLeft (AfterStop c r) = 5"
| "turnsLeft AtRemoving = 4"
| "turnsLeft AtRemove = 3"
| "turnsLeft (AfterRemove r) = 2"
| "turnsLeft (Returning r) = 1"
| "turnsLeft Returned = 0"

fun eventsOf :: "action list \<Rightarrow> event list" where
  "eventsOf [] = []"
| "eventsOf (Event ev # as) = ev # eventsOf as"
| "eventsOf (a # as) = eventsOf as"

definition eventsNamed :: "string \<Rightarrow> action list \<Rightarrow> event list" where
  "eventsNamed n as = filter (\<lambda>ev. resource ev = n) (eventsOf as)"

text \<open>
  The order the spec gives for the events of one resource: stopping, stopped, removing,
  removed, or a beginning of that order followed by one error event.
\<close>

definition lifecycle :: "string \<Rightarrow> event list" where
  "lifecycle n = [StoppingEvent n, StoppedEvent n, RemovingEvent n, RemovedEvent n]"

fun isError :: "event \<Rightarrow> bool" where
  "isError (ErrorMessageEvent n m) = True"
| "isError ev = False"

definition inLifecycleOrder :: "string \<Rightarrow> event list \<Rightarrow> bool" where
  "inLifecycleOrder n evs =
     (evs = lifecycle n
      \<or> (evs \<noteq> [] \<and> isError (last evs) \<and> resource (last evs) = n
          \<and> prefix (butlast evs) (lifecycle n)))"

text \<open>
  The test of line 150 on the first listed container: the first recovered configuration
  path is the placeholder \<^verbatim>\<open>-\<close>, which stands for a definition read from standard
  input.
\<close>

definition noDeclarationFile :: "Container \<Rightarrow> bool" where
  "noDeclarationFile c =
     (case loadProjectOptionsFromLabels c of
        Inl err \<Rightarrow> False
      | Inr options \<Rightarrow> (case ConfigPaths options of [] \<Rightarrow> False | path0 # _ \<Rightarrow> path0 = ''-''))"

section \<open>Example inputs\<close>

text \<open>
  A project \<^verbatim>\<open>shop\<close>: a container named \<open>name\<close> of service \<open>service\<close>, whose
  config-files label is \<open>configFiles\<close>; a runtime that lists the given containers by
  their project label and the given networks by project name, refuses to stop the
  containers named in \<open>failing\<close>, and removes everything it is asked to; a display
  name that is the first name without its leading slash.
\<close>

definition exContainer :: "string \<Rightarrow> string \<Rightarrow> string \<Rightarrow> Container" where
  "exContainer name service configFiles =
     \<lparr>Container.ID = name, Names = [CHR ''/'' # name],
      Labels = [projectLabel \<mapsto> ''shop'', serviceLabel \<mapsto> service,
                configFilesLabel \<mapsto> configFiles, workingDirLabel \<mapsto> ''/srv/shop'']\<rparr>"

definition exService ::
  "Container list \<Rightarrow> (string \<Rightarrow> Network list) \<Rightarrow> string list \<Rightarrow> composeService" where
  "exService cs nets failing =
     \<lparr>ContainerList = (\<lambda>name. Inr (filter (\<lambda>c. label c projectLabel = name) cs)),
      ContainerStop = (\<lambda>i. if i \<in> set failing then Some (Err ''cannot stop'') else None),
      ContainerRemove = (\<lambda>i. None),
      NetworkList = (\<lambda>name. Inr (nets name)),
      ensureNetworkDown = (\<lambda>i n. None),
      getCanonicalContainerName = (\<lambda>c. drop 1 (hd (Names c))),
      ProjectFromOptions = (\<lambda>options. Inl (Err ''no such file''))\<rparr>"

definition exNetworks :: "string \<Rightarrow> Network list" where
  "exNetworks name =
     (if name = ''shop'' then [\<lparr>Network.ID = ''n1'', Name = ''shop_default''\<rparr>]
      else if name = ''store'' then [\<lparr>Network.ID = ''n2'', Name = ''store_default''\<rparr>]
      else [])"

definition web1 :: Container where
  "web1 = exContainer ''shop_web_1'' ''web'' ''docker-compose.yml''"

definition web2 :: Container where
  "web2 = exContainer ''shop_web_2'' ''web'' ''docker-compose.yml''"

definition web3 :: Container where
  "web3 = exContainer ''shop_web_3'' ''web'' ''docker-compose.yml''"

definition db1 :: Container where
  "db1 = exContainer ''shop_db_1'' ''db'' ''docker-compose.yml''"

definition cache1 :: Container where
  "cache1 = exContainer ''shop_cache_1'' ''cache'' ''docker-compose.yml''"

definition shop :: Project where
  "shop = \<lparr>Project.Name = ''shop'',
           Services = [\<lparr>ServiceConfig.Name = ''web'', DependsOn = [''db'']\<rparr>,
                       \<lparr>ServiceConfig.Name = ''db'', DependsOn = []\<rparr>]\<rparr>"

text \<open>Two containers of the service \<^verbatim>\<open>web\<close> of a project deployed from standard input.\<close>

definition stdin1 :: Container where
  "stdin1 = exContainer ''shop_web_1'' ''web'' ''-''"

definition stdin2 :: Container where
  "stdin2 = exContainer ''shop_web_2'' ''web'' ''-''"

text \<open>
  \<^verbatim>\<open>Down\<close> on the project \<^verbatim>\<open>shop\<close>, supplied by the caller, orphans kept, with the
  empty schedules.
\<close>

definition exDown :: "Container list \<Rightarrow> string list \<Rightarrow> string \<Rightarrow> abort option \<times> action list" where
  "exDown cs failing projectName =
     Down (exService cs exNetworks failing) projectName
       \<lparr>Project = Some shop, RemoveOrphans = False\<rparr> [] []"

text \<open>
  Two schedules. In \<open>afterLoop\<close> the range loop over two containers ends before any
  goroutine runs. In \<open>lagging\<close>, over three containers, every goroutine reads the loop
  variable one iteration late: the first after the second iteration, the second after
  the third.
\<close>

definition afterLoop :: "turn list" where
  "afterLoop = [Loop, Loop]"

definition lagging :: "turn list" where
  "lagging = [Loop, Loop, Goroutine 0, Loop, Goroutine 1]"

section \<open>Splitting labels and paths\<close>

lemma Split_not_empty: "Split str sep \<noteq> []"
  by (induction str) (auto split: list.splits)

lemma loadProjectOptionsFromLabels_eq:
  "loadProjectOptionsFromLabels c =
     Inr \<lparr>ProjectOptions.Name = label c projectLabel,
          WorkingDir = label c workingDirLabel,
          ConfigPaths = map Base (Split (label c configFilesLabel) CHR '','')\<rparr>"
  by (simp add: loadProjectOptionsFromLabels_def NewProjectOptions_def
      WithOsEnv_def WithWorkingDirectory_def WithName_def Let_def)

lemma fakeServices_map:
  "fakeServices cs =
     map (\<lambda>c. \<lparr>ServiceConfig.Name = label c serviceLabel, DependsOn = []\<rparr>) cs"
proof -
  have "foldl (\<lambda>services container.
              services @ [\<lparr>ServiceConfig.Name = label container serviceLabel, DependsOn = []\<rparr>])
          acc cs =
        acc @ map (\<lambda>c. \<lparr>ServiceConfig.Name = label c serviceLabel, DependsOn = []\<rparr>) cs"
    for acc
    by (induction cs arbitrary: acc) simp_all
  then show ?thesis by (simp add: fakeServices_def)
qed

section \<open>The partition of a resource set\<close>

lemma split_filter: "split cs p = (filter p cs, filter (\<lambda>c. \<not> p c) cs)"
  by (induction cs) (simp_all add: Let_def)

section \<open>Task groups touch only their own elements\<close>

lemma foldl_step_invariant:
  assumes "\<And>st t. J st \<Longrightarrow> J (step spawn stepG st t)" and "J st"
  shows "J (foldl (step spawn stepG) st schedule)"
  using assms(2) by (induction schedule arbitrary: st) (simp_all add: assms(1))

lemma runGroup_trace:
  assumes spawned: "\<And>x. V x \<Longrightarrow> G (spawn x)"
    and stepped: "\<And>v g g' acts r. (\<And>x. v = Some x \<Longrightarrow> V x) \<Longrightarrow> G g \<Longrightarrow> stepG v g = (g', acts, r)
                    \<Longrightarrow> G g' \<and> (\<forall>a \<in> set acts. A a)"
    and elems: "\<And>x. x \<in> set xs \<Longrightarrow> V x"
  shows "\<forall>a \<in> set (trace (runGroup spawn stepG bound xs schedule)). A a"
proof -
  define J where "J st \<longleftrightarrow>
      (\<forall>x. loopVar st = Some x \<longrightarrow> V x) \<and> (\<forall>x \<in> set (pending st). V x)
      \<and> (\<forall>g \<in> set (goroutines st). G g) \<and> (\<forall>a \<in> set (trace st). A a)"
    for st :: "('a, 'b) group"
  have iter: "J (iterate spawn st)" if "J st" for st
    using that spawned by (cases "pending st") (auto simp: J_def iterate_def)
  have adv: "J (advance stepG j st)" if "J st" for st j
  proof (cases "j < length (goroutines st)")
    case False
    then show ?thesis using that by (simp add: advance_def)
  next
    case True
    obtain g' acts r where eq: "stepG (loopVar st) (goroutines st ! j) = (g', acts, r)"
      by (cases "stepG (loopVar st) (goroutines st ! j)") auto
    have "G (goroutines st ! j)" using True that by (simp add: J_def)
    moreover have "\<And>x. loopVar st = Some x \<Longrightarrow> V x" using that by (simp add: J_def)
    ultimately have g': "G g'" and acts: "\<forall>a \<in> set acts. A a"
      using stepped [OF _ _ eq] by blast+
    have "\<forall>g \<in> set ((goroutines st)[j := g']). G g"
      using that g' by (auto simp: J_def dest!: subsetD [OF set_update_subset_insert])
    then show ?thesis
      using that True acts eq by (auto simp: J_def advance_def)
  qed
  have pres: "J (step spawn stepG st t)" if "J st" for st t
    using that iter adv by (cases t) simp_all
  have init: "J \<lparr>loopVar = None, pending = xs, goroutines = [], firstErr = None, trace = []\<rparr>"
    using elems by (simp add: J_def)
  have run: "J (foldl (step spawn stepG) st ts)" if "J st" for st ts
    using pres that by (rule foldl_step_invariant [where J = J])
  have "J (runGroup spawn stepG bound xs schedule)"
    unfolding runGroup_def Let_def by (rule run [OF run [OF init]])
  then show ?thesis by (simp add: J_def)
qed

lemma stepAt_touches:
  assumes "\<And>x. v = Some x \<Longrightarrow> x \<in> set cs" "mine \<in> set cs" "set (held p) \<subseteq> set cs"
    "stepAt s v mine p = (p', acts, r)"
  shows "set (held p') \<subseteq> set cs \<and> (\<forall>a \<in> set acts. \<exists>c \<in> set cs. touches s c a)"
  using assms by (induction s v mine p rule: stepAt.induct) (auto simp: touches_def)

lemma stepRemove_touches:
  assumes v: "\<And>x. v = Some x \<Longrightarrow> x \<in> set cs"
    and g: "toDelete g \<in> set cs \<and> set (held (at g)) \<subseteq> set cs"
    and eq: "stepRemove s v g = (g', acts, r)"
  shows "(toDelete g' \<in> set cs \<and> set (held (at g')) \<subseteq> set cs)
          \<and> (\<forall>a\<in>set acts. \<exists>c\<in>set cs. touches s c a)"
proof -
  obtain p' a' r' where p': "stepAt s v (toDelete g) (at g) = (p', a', r')"
    by (cases "stepAt s v (toDelete g) (at g)") auto
  with eq have g': "g' = g\<lparr>at := p'\<rparr>" and "a' = acts"
    by (simp_all add: stepRemove_def)
  with p' have "stepAt s v (toDelete g) (at g) = (p', acts, r')" by simp
  from stepAt_touches [OF v _ _ this] g
  show ?thesis by (simp add: g')
qed


lemma removeContainers_touches:
  "\<forall>a \<in> set (snd (removeContainers s cs schedule)). \<exists>c \<in> set cs. touches s c a"
proof -
  have "\<forall>a \<in> set (trace (runGroup spawnRemove (stepRemove s) 8 cs schedule)).
          (\<lambda>a. \<exists>c \<in> set cs. touches s c a) a"
  proof (rule runGroup_trace [of "\<lambda>x. x \<in> set cs"
        "\<lambda>g. toDelete g \<in> set cs \<and> set (held (at g)) \<subseteq> set cs" spawnRemove "stepRemove s"
        "\<lambda>a. \<exists>c \<in> set cs. touches s c a" cs 8 schedule])
    show "toDelete (spawnRemove x) \<in> set cs \<and> set (held (at (spawnRemove x))) \<subseteq> set cs"
      if "x \<in> set cs" for x
      using that by (simp add: spawnRemove_def)
  next
    fix v g g' acts r
    assume v: "\<And>x. v = Some x \<Longrightarrow> x \<in> set cs"
      and g: "toDelete g \<in> set cs \<and> set (held (at g)) \<subseteq> set cs"
      and eq: "stepRemove s v g = (g', acts, r)"
    show "(toDelete g' \<in> set cs \<and> set (held (at g')) \<subseteq> set cs)
          \<and> (\<forall>a\<in>set acts. \<exists>c\<in>set cs. touches s c a)"
      by (rule stepRemove_touches [OF v g eq])
  next
    show "x \<in> set cs" if "x \<in> set cs" for x by (rule that)
  qed
  then show ?thesis by (simp add: removeContainers_def Let_def)
qed


lemma removeNetworks_listed:
  "\<forall>a \<in> set (snd (removeNetworks s nets schedule)).
     \<exists>n \<in> set nets. a = EnsureNetworkDownCall (Network.ID n) (Network.Name n)"
proof -
  let ?A = "\<lambda>a. \<exists>n \<in> set nets. a = EnsureNetworkDownCall (Network.ID n) (Network.Name n)"
  let ?G = "\<lambda>g. \<exists>n \<in> set nets. networkID g = Network.ID n \<and> networkName g = Network.Name n"
  have "\<forall>a \<in> set (trace (runGroup spawnNetworkDown (stepNetworkDown s) 1 nets schedule)). ?A a"
  proof (rule runGroup_trace [of "\<lambda>x. x \<in> set nets" ?G spawnNetworkDown "stepNetworkDown s"
        ?A nets 1 schedule])
    show "?G (spawnNetworkDown x)" if "x \<in> set nets" for x
      using that by (auto simp: spawnNetworkDown_def)
  next
    fix v g g' acts r
    assume "?G g" and "stepNetworkDown s v g = (g', acts, r)"
    then show "?G g' \<and> (\<forall>a\<in>set acts. ?A a)"
      by (auto simp: stepNetworkDown_def split: if_splits)
  next
    show "x \<in> set nets" if "x \<in> set nets" for x by (rule that)
  qed
  then show ?thesis by (simp add: removeNetworks_def Let_def)
qed

section \<open>Every goroutine returns before the group does\<close>

lemma goroutine_runs_stopContainers:
  "(case stepAt s v mine (AtStopping c) of (p1, a1, r1) \<Rightarrow>
      (case stepAt s v mine p1 of (p2, a2, r2) \<Rightarrow>
         (case stepAt s v mine p2 of (p3, a3, r3) \<Rightarrow>
            a1 @ a2 @ a3 = snd (stopContainers s [c])
            \<and> p3 = (case fst (stopContainers s [c]) of
                       None \<Rightarrow> AtRemoving
                     | Some err \<Rightarrow> Returning (Some err)))))"
  by (cases "ContainerStop s (Container.ID c)") simp_all


lemma iterate_rounds:
  assumes "length (goroutines st) + length (pending st) = n"
    and "goroutines st \<noteq> [] \<longrightarrow> loopVar st \<noteq> None"
    and "\<forall>g \<in> set (goroutines st). rank g \<le> bound"
    and "\<And>x. rank (spawn x) \<le> bound"
    and "length (pending st) = k"
  shows "pending (foldl (step spawn stepG) st (replicate k Loop)) = []
    \<and> length (goroutines (foldl (step spawn stepG) st (replicate k Loop))) = n
    \<and> (goroutines (foldl (step spawn stepG) st (replicate k Loop)) \<noteq> []
          \<longrightarrow> loopVar (foldl (step spawn stepG) st (replicate k Loop)) \<noteq> None)
    \<and> (\<forall>g \<in> set (goroutines (foldl (step spawn stepG) st (replicate k Loop))). rank g \<le> bound)"
  using assms
proof (induction k arbitrary: st)
  case 0
  then show ?case by simp
next
  case (Suc k)
  from Suc.prems(5) obtain x xs where p: "pending st = x # xs"
    by (cases "pending st") auto
  let ?st = "iterate spawn st"
  have it: "?st = st\<lparr>loopVar := Some x, pending := xs, goroutines := goroutines st @ [spawn x]\<rparr>"
    by (simp add: iterate_def p)
  have "pending (foldl (step spawn stepG) ?st (replicate k Loop)) = []
    \<and> length (goroutines (foldl (step spawn stepG) ?st (replicate k Loop))) = n
    \<and> (goroutines (foldl (step spawn stepG) ?st (replicate k Loop)) \<noteq> []
          \<longrightarrow> loopVar (foldl (step spawn stepG) ?st (replicate k Loop)) \<noteq> None)
    \<and> (\<forall>g \<in> set (goroutines (foldl (step spawn stepG) ?st (replicate k Loop))). rank g \<le> bound)"
  proof (rule Suc.IH)
    show "length (goroutines ?st) + length (pending ?st) = n"
      using Suc.prems(1) by (simp add: it p)
    show "goroutines ?st \<noteq> [] \<longrightarrow> loopVar ?st \<noteq> None" by (simp add: it)
    show "\<forall>g \<in> set (goroutines ?st). rank g \<le> bound"
      using Suc.prems(3,4) by (simp add: it)
    show "\<And>x. rank (spawn x) \<le> bound" by (rule Suc.prems(4))
    show "length (pending ?st) = k" using Suc.prems(5) by (simp add: it p)
  qed
  then show ?case by simp
qed

lemma advance_turns:
  assumes dec: "\<And>v g. v \<noteq> None \<Longrightarrow> rank (fst (stepG v g)) \<le> rank g - 1"
    and "loopVar st \<noteq> None" and "j < length (goroutines st)"
  shows "loopVar (foldl (step spawn stepG) st (replicate k (Goroutine j))) = loopVar st
    \<and> pending (foldl (step spawn stepG) st (replicate k (Goroutine j))) = pending st
    \<and> length (goroutines (foldl (step spawn stepG) st (replicate k (Goroutine j))))
        = length (goroutines st)
    \<and> (\<forall>i < length (goroutines st).
          rank (goroutines (foldl (step spawn stepG) st (replicate k (Goroutine j))) ! i)
            \<le> (if i = j then rank (goroutines st ! i) - k else rank (goroutines st ! i)))"
  using assms(2,3)
proof (induction k arbitrary: st)
  case 0
  then show ?case by simp
next
  case (Suc k)
  let ?st = "advance stepG j st"
  obtain g' acts r where eq: "stepG (loopVar st) (goroutines st ! j) = (g', acts, r)"
    by (cases "stepG (loopVar st) (goroutines st ! j)") auto
  have adv: "?st = st\<lparr>goroutines := (goroutines st)[j := g'], trace := trace st @ acts,
                   firstErr := (case firstErr st of None \<Rightarrow> r | Some err \<Rightarrow> Some err)\<rparr>"
    using Suc.prems(2) by (simp add: advance_def eq)
  have g': "rank g' \<le> rank (goroutines st ! j) - 1"
    using dec [OF Suc.prems(1), of "goroutines st ! j"] by (simp add: eq)
  have lv: "loopVar ?st \<noteq> None" and len: "j < length (goroutines ?st)"
    using Suc.prems by (simp_all add: adv)
  note IH = Suc.IH [OF lv len]
  have "\<forall>i < length (goroutines st).
          rank (goroutines (foldl (step spawn stepG) ?st (replicate k (Goroutine j))) ! i)
            \<le> (if i = j then rank (goroutines st ! i) - Suc k else rank (goroutines st ! i))"
  proof (intro allI impI)
    fix i assume i: "i < length (goroutines st)"
    with IH have "rank (goroutines (foldl (step spawn stepG) ?st (replicate k (Goroutine j))) ! i)
            \<le> (if i = j then rank (goroutines ?st ! i) - k else rank (goroutines ?st ! i))"
      by (simp add: adv)
    also have "\<dots> \<le> (if i = j then rank (goroutines st ! i) - Suc k else rank (goroutines st ! i))"
      using g' i by (auto simp: adv)
    finally show "rank (goroutines (foldl (step spawn stepG) ?st (replicate k (Goroutine j))) ! i)
            \<le> (if i = j then rank (goroutines st ! i) - Suc k else rank (goroutines st ! i))" .
  qed
  with IH show ?case by (simp add: adv)
qed

lemma drain_all:
  assumes dec: "\<And>v g. v \<noteq> None \<Longrightarrow> rank (fst (stepG v g)) \<le> rank g - 1"
    and "goroutines st \<noteq> [] \<longrightarrow> loopVar st \<noteq> None"
    and "\<forall>g \<in> set (goroutines st). rank g \<le> bound"
    and "m \<le> length (goroutines st)"
  shows "length (goroutines (foldl (step spawn stepG) st
              (concat (map (\<lambda>j. replicate bound (Goroutine j)) [0 ..< m])))) = length (goroutines st)
    \<and> pending (foldl (step spawn stepG) st
              (concat (map (\<lambda>j. replicate bound (Goroutine j)) [0 ..< m]))) = pending st
    \<and> loopVar (foldl (step spawn stepG) st
              (concat (map (\<lambda>j. replicate bound (Goroutine j)) [0 ..< m]))) = loopVar st
    \<and> (\<forall>i < length (goroutines st).
          rank (goroutines (foldl (step spawn stepG) st
              (concat (map (\<lambda>j. replicate bound (Goroutine j)) [0 ..< m]))) ! i)
            \<le> (if i < m then 0 else rank (goroutines st ! i)))"
  using assms(4)
proof (induction m)
  case 0
  then show ?case by simp
next
  case (Suc m)
  let ?mid = "foldl (step spawn stepG) st (concat (map (\<lambda>j. replicate bound (Goroutine j)) [0 ..< m]))"
  from Suc have IH: "length (goroutines ?mid) = length (goroutines st)"
    "pending ?mid = pending st" "loopVar ?mid = loopVar st"
    "\<forall>i < length (goroutines st). rank (goroutines ?mid ! i)
            \<le> (if i < m then 0 else rank (goroutines st ! i))"
    by simp_all
  have m: "m < length (goroutines ?mid)" using Suc.prems IH(1) by simp
  then have ne: "goroutines st \<noteq> []" using IH(1) by auto
  with assms(2) IH(3) have lv: "loopVar ?mid \<noteq> None" by simp
  note A = advance_turns [where rank = rank and stepG = stepG and spawn = spawn and k = bound,
      OF dec lv m]
  have split: "foldl (step spawn stepG) st
                 (concat (map (\<lambda>j. replicate bound (Goroutine j)) [0 ..< Suc m]))
               = foldl (step spawn stepG) ?mid (replicate bound (Goroutine m))"
    by simp
  have "\<forall>i < length (goroutines st).
          rank (goroutines (foldl (step spawn stepG) ?mid (replicate bound (Goroutine m))) ! i)
            \<le> (if i < Suc m then 0 else rank (goroutines st ! i))"
  proof (intro allI impI)
    fix i assume i: "i < length (goroutines st)"
    with A IH(1) have le: "rank (goroutines (foldl (step spawn stepG) ?mid (replicate bound (Goroutine m))) ! i)
        \<le> (if i = m then rank (goroutines ?mid ! i) - bound else rank (goroutines ?mid ! i))"
      by simp
    have "rank (goroutines st ! i) \<le> bound" using assms(3) i by simp
    with IH(4) i have "rank (goroutines ?mid ! i) \<le> bound"
      by (auto split: if_splits dest!: spec [of _ i])
    with le IH(4) i
    show "rank (goroutines (foldl (step spawn stepG) ?mid (replicate bound (Goroutine m))) ! i)
            \<le> (if i < Suc m then 0 else rank (goroutines st ! i))"
      by (auto split: if_splits dest!: spec [of _ i])
  qed
  with A IH show ?case unfolding split by simp
qed


lemma runGroup_finished:
  assumes sp: "\<And>x. rank (spawn x) \<le> bound"
    and dec: "\<And>v g. v \<noteq> None \<Longrightarrow> rank (fst (stepG v g)) \<le> rank g - 1"
  shows "pending (runGroup spawn stepG bound xs schedule) = []
    \<and> length (goroutines (runGroup spawn stepG bound xs schedule)) = length xs
    \<and> (\<forall>g \<in> set (goroutines (runGroup spawn stepG bound xs schedule)). rank g = 0)"
proof -
  define J where "J st \<longleftrightarrow>
      length (goroutines st) + length (pending st) = length xs
      \<and> (goroutines st \<noteq> [] \<longrightarrow> loopVar st \<noteq> None)
      \<and> (\<forall>g \<in> set (goroutines st). rank g \<le> bound)" for st :: "('a, 'b) group"
  let ?st0 = "\<lparr>loopVar = None, pending = xs, goroutines = [], firstErr = None, trace = []\<rparr>"
  define st1 where "st1 = foldl (step spawn stepG) ?st0 schedule"
  define st2 where "st2 = foldl (step spawn stepG) st1 (replicate (length (pending st1)) Loop)"
  define st3 where "st3 = foldl (step spawn stepG) st2
      (concat (map (\<lambda>j. replicate bound (Goroutine j)) [0 ..< length xs]))"
  have iter: "J (iterate spawn st)" if "J st" for st
    using that sp by (cases "pending st") (auto simp: J_def iterate_def)
  have adv: "J (advance stepG j st)" if "J st" for st j
  proof (cases "j < length (goroutines st)")
    case False
    then show ?thesis using that by (simp add: advance_def)
  next
    case True
    obtain g' acts r where eq: "stepG (loopVar st) (goroutines st ! j) = (g', acts, r)"
      by (cases "stepG (loopVar st) (goroutines st ! j)") auto
    from True that have lv: "loopVar st \<noteq> None" by (auto simp: J_def)
    have "rank (goroutines st ! j) \<le> bound" using True that by (simp add: J_def)
    with dec [OF lv, of "goroutines st ! j"] have g': "rank g' \<le> bound" by (simp add: eq)
    have "\<forall>g \<in> set ((goroutines st)[j := g']). rank g \<le> bound"
      using that g' by (auto simp: J_def dest!: subsetD [OF set_update_subset_insert])
    then show ?thesis
      using that True eq by (auto simp: J_def advance_def)
  qed
  have pres: "J (step spawn stepG st t)" if "J st" for st t
    using that iter adv by (cases t) simp_all
  have "J ?st0" by (simp add: J_def)
  with pres have J1: "J st1"
    unfolding st1_def by (rule foldl_step_invariant [where J = J])
  have two: "pending st2 = [] \<and> length (goroutines st2) = length xs
      \<and> (goroutines st2 \<noteq> [] \<longrightarrow> loopVar st2 \<noteq> None)
      \<and> (\<forall>g \<in> set (goroutines st2). rank g \<le> bound)"
    unfolding st2_def
    by (rule iterate_rounds [where rank = rank]) (use J1 sp in \<open>simp_all add: J_def\<close>)
  have three: "length (goroutines st3) = length (goroutines st2) \<and> pending st3 = pending st2
      \<and> loopVar st3 = loopVar st2
      \<and> (\<forall>i < length (goroutines st2). rank (goroutines st3 ! i)
            \<le> (if i < length xs then 0 else rank (goroutines st2 ! i)))"
    unfolding st3_def
    by (rule drain_all [where rank = rank and bound = bound]) (use two dec in simp_all)
  have "\<forall>g \<in> set (goroutines st3). rank g = 0"
    using two three by (auto simp: in_set_conv_nth)
  moreover have "runGroup spawn stepG bound xs schedule = st3"
    using J1 by (simp add: runGroup_def completion_def st3_def st2_def st1_def J_def Let_def add.commute)
  ultimately show ?thesis using two three by simp
qed

lemma stepAt_turnsLeft:
  "v \<noteq> None \<Longrightarrow> turnsLeft (fst (stepAt s v mine p)) \<le> turnsLeft p - 1"
  by (induction s v mine p rule: stepAt.induct) simp_all

lemma removeContainers_all_returned:
  "length (goroutines (runGroup spawnRemove (stepRemove s) 8 cs schedule)) = length cs
   \<and> (\<forall>g \<in> set (goroutines (runGroup spawnRemove (stepRemove s) 8 cs schedule)). at g = Returned)"
proof -
  have "turnsLeft p = 0 \<longleftrightarrow> p = Returned" for p by (cases p) simp_all
  moreover have "pending (runGroup spawnRemove (stepRemove s) 8 cs schedule) = []
    \<and> length (goroutines (runGroup spawnRemove (stepRemove s) 8 cs schedule)) = length cs
    \<and> (\<forall>g \<in> set (goroutines (runGroup spawnRemove (stepRemove s) 8 cs schedule)).
          turnsLeft (at g) = 0)"
  proof (rule runGroup_finished [where rank = "\<lambda>g. turnsLeft (at g)"])
    show "turnsLeft (at (spawnRemove x)) \<le> 8" for x by (simp add: spawnRemove_def)
    show "turnsLeft (at (fst (stepRemove s v g))) \<le> turnsLeft (at g) - 1" if "v \<noteq> None" for v g
      using stepAt_turnsLeft [OF that, of s "toDelete g" "at g"]
      by (cases "stepAt s v (toDelete g) (at g)") (simp add: stepRemove_def)
  qed
  ultimately show ?thesis by simp
qed

lemma removeNetworks_all_returned:
  "length (goroutines (runGroup spawnNetworkDown (stepNetworkDown s) 1 nets schedule)) = length nets
   \<and> (\<forall>g \<in> set (goroutines (runGroup spawnNetworkDown (stepNetworkDown s) 1 nets schedule)).
         finished g)"
proof -
  have "pending (runGroup spawnNetworkDown (stepNetworkDown s) 1 nets schedule) = []
    \<and> length (goroutines (runGroup spawnNetworkDown (stepNetworkDown s) 1 nets schedule)) = length nets
    \<and> (\<forall>g \<in> set (goroutines (runGroup spawnNetworkDown (stepNetworkDown s) 1 nets schedule)).
          (if finished g then 0 else 1 :: nat) = 0)"
  proof (rule runGroup_finished [where rank = "\<lambda>g. if finished g then 0 else 1 :: nat"])
    show "(if finished (spawnNetworkDown x) then 0 else 1 :: nat) \<le> 1" for x by simp
    show "(if finished (fst (stepNetworkDown s v g)) then 0 else 1 :: nat)
            \<le> (if finished g then 0 else 1) - 1" for v g
      by (simp add: stepNetworkDown_def)
  qed
  then show ?thesis by (simp split: if_splits)
qed

section \<open>The walk over the services\<close>

lemma serviceAction_effect:
  assumes "serviceAction s service st = (err, st')"
  shows "containers st' = filter (\<lambda>c. \<not> isService (ServiceConfig.Name service) c) (containers st)"
    and "\<exists>acts. performed st' = performed st @ acts
           \<and> (\<forall>a \<in> set acts. \<exists>c \<in> set (containers st).
                  label c serviceLabel = ServiceConfig.Name service \<and> touches s c a)"
proof -
  let ?batch = "filter (isService (ServiceConfig.Name service)) (containers st)"
  let ?sched = "case schedules st of [] \<Rightarrow> [] | schedule # _ \<Rightarrow> schedule"
  obtain e acts where rc: "removeContainers s ?batch ?sched = (e, acts)"
    by (cases "removeContainers s ?batch ?sched") auto
  from assms rc have st': "st' = \<lparr>containers = filter (\<lambda>c. \<not> isService (ServiceConfig.Name service) c) (containers st),
        schedules = tl (schedules st), performed = performed st @ acts\<rparr>"
    by (simp add: serviceAction_def split_filter)
  show "containers st' = filter (\<lambda>c. \<not> isService (ServiceConfig.Name service) c) (containers st)"
    by (simp add: st')
  have "\<forall>a \<in> set acts. \<exists>c \<in> set ?batch. touches s c a"
    using removeContainers_touches [of s ?batch ?sched] rc by simp
  then have "\<forall>a \<in> set acts. \<exists>c \<in> set (containers st).
                  label c serviceLabel = ServiceConfig.Name service \<and> touches s c a"
    by (auto simp: isService_def)
  then show "\<exists>acts. performed st' = performed st @ acts
           \<and> (\<forall>a \<in> set acts. \<exists>c \<in> set (containers st).
                  label c serviceLabel = ServiceConfig.Name service \<and> touches s c a)"
    by (simp add: st')
qed

lemma runActions_effect:
  assumes "runActions (serviceAction s) order st = (err, st')"
  shows "set (containers st') \<subseteq> set (containers st)
    \<and> (\<exists>acts. performed st' = performed st @ acts
           \<and> (\<forall>a \<in> set acts. \<exists>c \<in> set (containers st).
                  label c serviceLabel \<in> set (map ServiceConfig.Name order) \<and> touches s c a))"
  using assms
proof (induction order arbitrary: st)
  case Nil
  then show ?case by simp
next
  case (Cons service later)
  obtain e st1 where first: "serviceAction s service st = (e, st1)"
    by (cases "serviceAction s service st") auto
  note eff = serviceAction_effect [OF first]
  from eff(2) obtain acts1 where acts1: "performed st1 = performed st @ acts1"
    and t1: "\<forall>a \<in> set acts1. \<exists>c \<in> set (containers st).
                  label c serviceLabel = ServiceConfig.Name service \<and> touches s c a"
    by blast
  have sub1: "set (containers st1) \<subseteq> set (containers st)"
    by (simp add: eff(1))
  show ?case
  proof (cases e)
    case (Some x)
    with Cons.prems first have "st' = st1" by simp
    then show ?thesis using sub1 acts1 t1 by fastforce
  next
    case None
    with Cons.prems first have "runActions (serviceAction s) later st1 = (err, st')" by simp
    from Cons.IH [OF this] obtain acts2 where sub2: "set (containers st') \<subseteq> set (containers st1)"
      and acts2: "performed st' = performed st1 @ acts2"
      and t2: "\<forall>a \<in> set acts2. \<exists>c \<in> set (containers st1).
                  label c serviceLabel \<in> set (map ServiceConfig.Name later) \<and> touches s c a"
      by blast
    have "performed st' = performed st @ (acts1 @ acts2)"
      by (simp add: acts1 acts2)
    moreover have "\<forall>a \<in> set (acts1 @ acts2). \<exists>c \<in> set (containers st).
                  label c serviceLabel \<in> set (map ServiceConfig.Name (service # later)) \<and> touches s c a"
      using t1 t2 sub1 by fastforce
    ultimately show ?thesis using sub1 sub2 by blast
  qed
qed

lemma reverseOrder_Nil: "reverseOrder [] = Some []"
  by (subst reverseOrder.simps) simp

lemma reverseOrder_cycle:
  "services \<noteq> [] \<Longrightarrow> filter (\<lambda>svc. \<not> dependedOn services svc) services = []
     \<Longrightarrow> reverseOrder services = None"
  by (subst reverseOrder.simps) simp

lemma reverseOrder_round:
  "services \<noteq> [] \<Longrightarrow> filter (\<lambda>svc. \<not> dependedOn services svc) services \<noteq> []
     \<Longrightarrow> reverseOrder services =
          (case reverseOrder (filter (dependedOn services) services) of
             None \<Rightarrow> None
           | Some later \<Rightarrow> Some (filter (\<lambda>svc. \<not> dependedOn services svc) services @ later))"
  by (subst reverseOrder.simps) simp

lemma reverseOrder_set:
  "reverseOrder services = Some order \<Longrightarrow> set order = set services"
proof (induction services arbitrary: order rule: reverseOrder.induct)
  case (1 services)
  show ?case
  proof (cases "services = []")
    case True
    with "1.prems" show ?thesis by (simp add: reverseOrder_Nil)
  next
    case False
    let ?free = "filter (\<lambda>svc. \<not> dependedOn services svc) services"
    have free: "?free \<noteq> []"
    proof
      assume "?free = []"
      from reverseOrder_cycle [OF False this] "1.prems" show False by simp
    qed
    from "1.prems" reverseOrder_round [OF False free] obtain later where
      later: "reverseOrder (filter (dependedOn services) services) = Some later"
      and order: "order = ?free @ later"
      by (cases "reverseOrder (filter (dependedOn services) services)") simp_all
    from "1.IH" [OF False free later] have "set later = set (filter (dependedOn services) services)" .
    then show ?thesis by (auto simp: order)
  qed
qed

section \<open>The shape of a run of Down\<close>

lemma runGroup_Nil:
  "runGroup spawn stepG bound [] schedule =
     \<lparr>loopVar = None, pending = [], goroutines = [], firstErr = None, trace = []\<rparr>"
proof -
  let ?st0 = "\<lparr>loopVar = None, pending = [], goroutines = [], firstErr = None, trace = []\<rparr>
              :: ('a, 'b) group"
  have idle: "step spawn stepG ?st0 t = ?st0" for t
    by (cases t) (simp_all add: iterate_def advance_def)
  have "foldl (step spawn stepG) ?st0 ts = ?st0" for ts
    by (induction ts) (simp_all add: idle)
  then show ?thesis by (simp add: runGroup_def completion_def)
qed

lemma removeContainers_Nil: "removeContainers s [] schedule = (None, [])"
  by (simp add: removeContainers_def runGroup_Nil)

lemma removeNetworks_Nil: "removeNetworks s [] schedule = (None, [])"
  by (simp add: removeNetworks_def runGroup_Nil)

lemma resolveProject_trace:
  "resolveProject s projectName options = (r, t0) \<Longrightarrow> set t0 \<subseteq> {ContainerListCall projectName}"
  by (auto simp: resolveProject_def projectFromContainerLabels_def Let_def
      split: option.splits sum.splits)

lemma networkSweep_trace:
  "\<exists>acts. snd (networkSweep s projectName netSchedule) = NetworkListCall projectName # acts
     \<and> (\<forall>a \<in> set acts. \<exists>nets. NetworkList s projectName = Inr nets
            \<and> (\<exists>n \<in> set nets. a = EnsureNetworkDownCall (Network.ID n) (Network.Name n)))"
proof (cases "NetworkList s projectName")
  case (Inl err)
  then show ?thesis by (simp add: networkSweep_def)
next
  case (Inr nets)
  obtain e acts where rn: "removeNetworks s nets netSchedule = (e, acts)"
    by (cases "removeNetworks s nets netSchedule") auto
  with removeNetworks_listed [of s nets netSchedule]
  have "\<forall>a \<in> set acts. \<exists>n \<in> set nets. a = EnsureNetworkDownCall (Network.ID n) (Network.Name n)"
    by simp
  with Inr rn show ?thesis by (simp add: networkSweep_def)
qed

lemma InReverseDependencyOrder_effect:
  assumes "InReverseDependencyOrder project (serviceAction s) st = (err, st')"
  shows "set (containers st') \<subseteq> set (containers st)
    \<and> (\<exists>acts. performed st' = performed st @ acts
           \<and> (\<forall>a \<in> set acts. \<exists>c \<in> set (containers st). declared project c \<and> touches s c a))"
proof (cases "reverseOrder (Services project)")
  case None
  with assms have "st' = st" by (simp add: InReverseDependencyOrder_def)
  then show ?thesis by simp
next
  case (Some order)
  with assms have "runActions (serviceAction s) order st = (err, st')"
    by (simp add: InReverseDependencyOrder_def)
  from runActions_effect [OF this] reverseOrder_set [OF Some]
  show ?thesis by (simp add: declared_def)
qed

lemma removeOrphans_effect:
  assumes "removeOrphans s options st = (err, acts)"
  shows "\<forall>a \<in> set acts. RemoveOrphans options \<and> (\<exists>c \<in> set (containers st). touches s c a)"
proof (cases "RemoveOrphans options \<and> length (containers st) > 0")
  case True
  with assms removeContainers_touches
      [of s "containers st" "case schedules st of [] \<Rightarrow> [] | schedule # _ \<Rightarrow> schedule"]
  show ?thesis by (simp add: removeOrphans_def)
next
  case False
  with assms have "acts = []" by (auto simp: removeOrphans_def)
  then show ?thesis by simp
qed

lemma Down_trace:
  assumes res: "resolveProject s projectName options = (Inr project, t0)"
    and list: "ContainerList s (Project.Name project) = Inr listed"
  shows "\<exists>acts nacts. snd (Down s projectName options scheds netSchedule) =
            t0 @ ContainerListCall (Project.Name project) # acts @ nacts
     \<and> (\<forall>a \<in> set acts. \<exists>c \<in> set listed.
            (declared project c \<or> RemoveOrphans options) \<and> touches s c a)
     \<and> (nacts = [] \<or> nacts = snd (networkSweep s projectName netSchedule))"
proof -
  let ?st0 = "\<lparr>containers = listed, schedules = scheds,
               performed = t0 @ [ContainerListCall (Project.Name project)]\<rparr>"
  obtain e st where walk: "InReverseDependencyOrder project (serviceAction s) ?st0 = (e, st)"
    by (cases "InReverseDependencyOrder project (serviceAction s) ?st0") auto
  from InReverseDependencyOrder_effect [OF walk] obtain acts1 where
    sub: "set (containers st) \<subseteq> set listed"
    and p1: "performed st = t0 @ ContainerListCall (Project.Name project) # acts1"
    and t1: "\<forall>a \<in> set acts1. \<exists>c \<in> set listed. declared project c \<and> touches s c a"
    by auto
  obtain e2 acts2 where orph: "removeOrphans s options st = (e2, acts2)"
    by (cases "removeOrphans s options st") auto
  from removeOrphans_effect [OF orph] sub
  have t2: "\<forall>a \<in> set acts2. \<exists>c \<in> set listed. RemoveOrphans options \<and> touches s c a"
    by blast
  obtain e3 nacts where sweep: "networkSweep s projectName netSchedule = (e3, nacts)"
    by (cases "networkSweep s projectName netSchedule") auto
  have down: "snd (Down s projectName options scheds netSchedule) =
      (case e of Some err \<Rightarrow> performed st
       | None \<Rightarrow> (case e2 of Some err \<Rightarrow> performed st @ acts2
                   | None \<Rightarrow> performed st @ acts2 @ nacts))"
    by (simp add: Down_def res list walk orph sweep split: option.splits)
  show ?thesis
  proof (cases e)
    case (Some err)
    with down p1 t1 show ?thesis
      by (intro exI [of _ acts1] exI [of _ "[]"]) auto
  next
    case None
    note e_None = this
    have t12: "\<forall>a \<in> set (acts1 @ acts2). \<exists>c \<in> set listed.
            (declared project c \<or> RemoveOrphans options) \<and> touches s c a"
      using t1 t2 by auto
    show ?thesis
    proof (cases e2)
      case (Some err)
      with down e_None p1 t12 show ?thesis
        by (intro exI [of _ "acts1 @ acts2"] exI [of _ "[]"]) simp
    next
      case None
      with down e_None p1 t12 sweep show ?thesis
        by (intro exI [of _ "acts1 @ acts2"] exI [of _ nacts]) simp
    qed
  qed
qed


lemma runActions_append:
  "runActions fn (xs @ ys) st =
     (case runActions fn xs st of
        (Some err, st') \<Rightarrow> (Some err, st')
      | (None, st') \<Rightarrow> runActions fn ys st')"
  by (induction xs arbitrary: st) (auto split: prod.splits option.splits)

section \<open>Facts about the example inputs\<close>

lemma label_exContainer:
  "label (exContainer name service configFiles) projectLabel = ''shop''"
  "label (exContainer name service configFiles) serviceLabel = service"
  "label (exContainer name service configFiles) configFilesLabel = configFiles"
  by (simp_all add: label_def exContainer_def projectLabel_def serviceLabel_def
      configFilesLabel_def workingDirLabel_def)

lemma stdin_listing:
  "ContainerList (exService [stdin1, stdin2] exNetworks []) ''shop'' = Inr [stdin1, stdin2]"
  by (simp add: exService_def stdin1_def stdin2_def label_exContainer)

lemma stdin_sentinel: "noDeclarationFile stdin1"
  by (simp add: noDeclarationFile_def loadProjectOptionsFromLabels_eq stdin1_def
      label_exContainer Base_def)

lemma shop_listing:
  "ContainerList (exService [web1, db1, cache1] exNetworks failing) ''shop'' = Inr [web1, db1, cache1]"
  by (simp add: exService_def web1_def db1_def cache1_def label_exContainer)

lemma shop_resolved:
  "resolveProject s projectName \<lparr>Project = Some shop, RemoveOrphans = orphans\<rparr> = (Inr shop, [])"
  by (simp add: resolveProject_def)

lemma shop_order:
  "reverseOrder (Services shop) =
     Some ([] @ \<lparr>ServiceConfig.Name = ''web'', DependsOn = [''db'']\<rparr>
              # [\<lparr>ServiceConfig.Name = ''db'', DependsOn = []\<rparr>])"
  by code_simp

lemma web1_cannot_stop:
  "removeContainers (exService [web1, db1] exNetworks [''shop_web_1'']) [web1] [] =
     (Some (Err ''cannot stop''),
      [Event (StoppingEvent ''Container shop_web_1''), ContainerStopCall ''shop_web_1'',
       Event (ErrorMessageEvent ''Container shop_web_1'' ''Error while Stopping'')])"
  by code_simp

text \<open>
  When every goroutine reads the loop variable before the loop moves on, each container
  is stopped and then removed under its own name.
\<close>

lemma timely_schedule:
  "removeContainers (exService [web1, web2] exNetworks []) [web1, web2]
     [Loop, Goroutine 0, Loop, Goroutine 1] =
     (None,
      [Event (StoppingEvent ''Container shop_web_1''), ContainerStopCall ''shop_web_1'',
       Event (StoppedEvent ''Container shop_web_1''),
       Event (RemovingEvent ''Container shop_web_1''), ContainerRemoveCall ''shop_web_1'',
       Event (RemovedEvent ''Container shop_web_1''),
       Event (StoppingEvent ''Container shop_web_2''), ContainerStopCall ''shop_web_2'',
       Event (StoppedEvent ''Container shop_web_2''),
       Event (RemovingEvent ''Container shop_web_2''), ContainerRemoveCall ''shop_web_2'',
       Event (RemovedEvent ''Container shop_web_2'')])"
  by code_simp

section \<open>Reconstruction\<close>

text \<open>
  C10. For every container record, also one whose config-files label is absent or empty,
  \<^verbatim>\<open>loadProjectOptionsFromLabels\<close> produces options whose \<^verbatim>\<open>ConfigPaths\<close> has at least
  one element, since splitting any string at commas gives at least one piece; so the
  test of \<^verbatim>\<open>ConfigPaths[0]\<close> in \<^verbatim>\<open>projectFromContainerLabels\<close> never indexes out of
  range, whatever the runtime lists.
\<close>

theorem C10_config_paths_not_empty:
  "(\<exists>options. loadProjectOptionsFromLabels c = Inr options
       \<and> ConfigPaths options \<noteq> [] \<and> 0 < length (ConfigPaths options))
   \<and> fst (projectFromContainerLabels s projectName) \<noteq> Inl IndexOutOfRange"
proof
  show "\<exists>options. loadProjectOptionsFromLabels c = Inr options
       \<and> ConfigPaths options \<noteq> [] \<and> 0 < length (ConfigPaths options)"
    by (simp add: loadProjectOptionsFromLabels_eq Split_not_empty)
  show "fst (projectFromContainerLabels s projectName) \<noteq> Inl IndexOutOfRange"
    by (auto simp: projectFromContainerLabels_def loadProjectOptionsFromLabels_eq
        Split_not_empty Let_def split: sum.splits list.splits)
qed

text \<open>The same at a container without any label, and at a runtime that lists nothing.\<close>

theorem C10_witness:
  "(\<exists>options. loadProjectOptionsFromLabels \<lparr>Container.ID = ''x'', Names = [], Labels = Map.empty\<rparr> = Inr options
       \<and> ConfigPaths options \<noteq> [] \<and> 0 < length (ConfigPaths options))
   \<and> fst (projectFromContainerLabels (exService [] exNetworks []) ''shop'') \<noteq> Inl IndexOutOfRange"
  by (rule C10_config_paths_not_empty)

text \<open>
  C2, as the code has it. When the first listed container carries the placeholder, the
  reconstructed project has the requested name and one service per listed container, in
  listing order, named by that container's service-name label and without dependency
  edges. The names of the services are the service-name labels observed; a name that
  several containers share is there once per container.
\<close>

theorem C2_one_service_per_container:
  assumes "ContainerList s projectName = Inr (c0 # rest)"
    and "noDeclarationFile c0"
  shows "fst (projectFromContainerLabels s projectName) =
           Inr \<lparr>Project.Name = projectName,
                Services = map (\<lambda>c. \<lparr>ServiceConfig.Name = label c serviceLabel, DependsOn = []\<rparr>)
                             (c0 # rest)\<rparr>"
  using assms
  by (auto simp: projectFromContainerLabels_def noDeclarationFile_def fakeServices_map Let_def
      split: sum.splits list.splits)

text \<open>The same at two containers of the service \<^verbatim>\<open>web\<close>.\<close>

theorem C2_witness:
  "ContainerList (exService [stdin1, stdin2] exNetworks []) ''shop'' = Inr [stdin1, stdin2]
   \<and> noDeclarationFile stdin1
   \<and> fst (projectFromContainerLabels (exService [stdin1, stdin2] exNetworks []) ''shop'') =
           Inr \<lparr>Project.Name = ''shop'',
                Services = map (\<lambda>c. \<lparr>ServiceConfig.Name = label c serviceLabel, DependsOn = []\<rparr>)
                             [stdin1, stdin2]\<rparr>"
  using C2_one_service_per_container [OF stdin_listing stdin_sentinel] stdin_listing stdin_sentinel
  by simp

text \<open>
  Two containers that share the service name \<^verbatim>\<open>web\<close> give two services named
  \<^verbatim>\<open>web\<close>, not one service per distinct name.
\<close>

theorem C2_counterexample:
  "fst (projectFromContainerLabels (exService [stdin1, stdin2] exNetworks []) ''shop'') =
     Inr \<lparr>Project.Name = ''shop'',
          Services = [\<lparr>ServiceConfig.Name = ''web'', DependsOn = []\<rparr>,
                      \<lparr>ServiceConfig.Name = ''web'', DependsOn = []\<rparr>]\<rparr>
   \<and> label stdin1 serviceLabel = ''web'' \<and> label stdin2 serviceLabel = ''web''"
proof -
  have labels: "label stdin1 serviceLabel = ''web''" "label stdin2 serviceLabel = ''web''"
    "label stdin1 configFilesLabel = ''-''"
    by (simp_all add: stdin1_def stdin2_def label_exContainer)
  show ?thesis
    by (simp add: projectFromContainerLabels_def stdin_listing loadProjectOptionsFromLabels_eq
        fakeServices_map labels Base_def)
qed

text \<open>
  C7. When the runtime lists no container for the project name,
  \<^verbatim>\<open>projectFromContainerLabels\<close> returns a project with that name and no service.
  \<^verbatim>\<open>Down\<close>, called without a project, then lists the containers twice (for the
  reconstruction and for itself), stops and removes nothing, emits no event, and goes
  on to the network sweep, whose result it returns; when the runtime lists no network
  either, it returns no error after the three listings.
\<close>

theorem C7_no_containers:
  assumes "ContainerList s projectName = Inr []"
  shows "projectFromContainerLabels s projectName =
           (Inr \<lparr>Project.Name = projectName, Services = []\<rparr>, [ContainerListCall projectName])
    \<and> (Project options = None \<longrightarrow>
          Down s projectName options scheds netSchedule =
            (map_option Error (fst (networkSweep s projectName netSchedule)),
             ContainerListCall projectName # ContainerListCall projectName
               # snd (networkSweep s projectName netSchedule)))
    \<and> (Project options = None \<longrightarrow> NetworkList s projectName = Inr [] \<longrightarrow>
          Down s projectName options scheds netSchedule =
            (None, [ContainerListCall projectName, ContainerListCall projectName,
                    NetworkListCall projectName]))"
proof -
  have recon: "projectFromContainerLabels s projectName =
           (Inr \<lparr>Project.Name = projectName, Services = []\<rparr>, [ContainerListCall projectName])"
    using assms by (simp add: projectFromContainerLabels_def)
  have down: "Down s projectName options scheds netSchedule =
            (map_option Error (fst (networkSweep s projectName netSchedule)),
             ContainerListCall projectName # ContainerListCall projectName
               # snd (networkSweep s projectName netSchedule))"
    if "Project options = None"
    using that assms
    by (simp add: Down_def resolveProject_def recon InReverseDependencyOrder_def
        reverseOrder_Nil removeOrphans_def split: prod.splits)
  have "networkSweep s projectName netSchedule = (None, [NetworkListCall projectName])"
    if "NetworkList s projectName = Inr []"
    using that by (simp add: networkSweep_def removeNetworks_Nil)
  with recon down show ?thesis by simp
qed

text \<open>The same at a runtime that knows no container and no network of \<^verbatim>\<open>blog\<close>.\<close>

theorem C7_witness:
  "ContainerList (exService [] exNetworks []) ''blog'' = Inr []
   \<and> NetworkList (exService [] exNetworks []) ''blog'' = Inr []
   \<and> projectFromContainerLabels (exService [] exNetworks []) ''blog'' =
       (Inr \<lparr>Project.Name = ''blog'', Services = []\<rparr>, [ContainerListCall ''blog''])
   \<and> Down (exService [] exNetworks []) ''blog'' \<lparr>Project = None, RemoveOrphans = True\<rparr> [] [] =
       (None, [ContainerListCall ''blog'', ContainerListCall ''blog'', NetworkListCall ''blog''])"
proof -
  have none: "ContainerList (exService [] exNetworks []) ''blog'' = Inr []"
    by (simp add: exService_def)
  have nets: "NetworkList (exService [] exNetworks []) ''blog'' = Inr []"
    by (simp add: exService_def exNetworks_def)
  note inst = C7_no_containers [OF none, of "\<lparr>Project = None, RemoveOrphans = True\<rparr>" "[]" "[]"]
  from inst have "projectFromContainerLabels (exService [] exNetworks []) ''blog'' =
       (Inr \<lparr>Project.Name = ''blog'', Services = []\<rparr>, [ContainerListCall ''blog''])"
    by (rule conjunct1)
  moreover from inst nets
  have "Down (exService [] exNetworks []) ''blog'' \<lparr>Project = None, RemoveOrphans = True\<rparr> [] [] =
       (None, [ContainerListCall ''blog'', ContainerListCall ''blog'', NetworkListCall ''blog''])"
    by (elim conjE) simp
  ultimately show ?thesis using none nets by simp
qed

section \<open>Partition\<close>

text \<open>
  C6. For every resource set \<open>R\<close> and every predicate \<open>p\<close>, \<open>split R p\<close> is the pair
  of the elements that satisfy \<open>p\<close> and of those that do not, each in the order of \<open>R\<close>:
  every element of \<open>R\<close> is in exactly one of the two, none is in both, both are
  subsequences of \<open>R\<close>; the empty set gives two empty outputs and a predicate that holds
  of nothing gives the empty set and \<open>R\<close>. As a function of its arguments it changes
  neither.
\<close>

theorem C6_split_partitions:
  "split R p = (filter p R, filter (\<lambda>c. \<not> p c) R)
   \<and> mset (fst (split R p)) + mset (snd (split R p)) = mset R
   \<and> set (fst (split R p)) \<union> set (snd (split R p)) = set R
   \<and> set (fst (split R p)) \<inter> set (snd (split R p)) = {}
   \<and> subseq (fst (split R p)) R \<and> subseq (snd (split R p)) R
   \<and> split [] p = ([], [])
   \<and> ((\<forall>c \<in> set R. \<not> p c) \<longrightarrow> split R p = ([], R))"
proof -
  have "mset (filter p R) + mset (filter (\<lambda>c. \<not> p c) R) = mset R"
    by (induction R) simp_all
  moreover have "set (filter p R) \<union> set (filter (\<lambda>c. \<not> p c) R) = set R" by auto
  moreover have "set (filter p R) \<inter> set (filter (\<lambda>c. \<not> p c) R) = {}" by auto
  moreover have "(\<forall>c \<in> set R. \<not> p c) \<longrightarrow> filter p R = [] \<and> filter (\<lambda>c. \<not> p c) R = R"
    by (induction R) simp_all
  ultimately show ?thesis by (simp add: split_filter)
qed

text \<open>The same at the containers of the example, split by the service \<^verbatim>\<open>web\<close>.\<close>

theorem C6_witness:
  "\<not> isService ''web'' db1 \<and> \<not> isService ''web'' cache1
   \<and> split [db1, cache1] (isService ''web'') = ([], [db1, cache1])
   \<and> split [web1, db1, web2] (isService ''web'') = ([web1, web2], [db1])"
proof -
  have none: "\<not> isService ''web'' db1" "\<not> isService ''web'' cache1"
    by (simp_all add: isService_def db1_def cache1_def label_exContainer)
  then have "\<forall>c \<in> set [db1, cache1]. \<not> isService ''web'' c" by simp
  with C6_split_partitions [of "[db1, cache1]" "isService ''web''"]
  have "split [db1, cache1] (isService ''web'') = ([], [db1, cache1])" by blast
  moreover have "split [web1, db1, web2] (isService ''web'') = ([web1, web2], [db1])"
    using C6_split_partitions [of "[web1, db1, web2]" "isService ''web''"]
    by (simp add: isService_def db1_def web1_def web2_def label_exContainer)
  ultimately show ?thesis using none by simp
qed

section \<open>Teardown\<close>

text \<open>
  C8. With \<^verbatim>\<open>RemoveOrphans\<close> false, every action of \<^verbatim>\<open>Down\<close> is a listing, the
  taking down of a network listed for the project name, or is aimed at a listed
  container of a declared service. So a listed container that matches no declared
  service is neither stopped nor removed (identifiers being unique in the listing) and
  no event carries its name (display names being unique in the listing), whatever the
  schedules. The events that \<^verbatim>\<open>ensureNetworkDown\<close> may emit are outside the file.
\<close>

theorem C8_orphans_untouched:
  assumes res: "resolveProject s projectName options = (Inr project, t0)"
    and list: "ContainerList s (Project.Name project) = Inr listed"
    and keep: "\<not> RemoveOrphans options"
  shows "(\<forall>a \<in> set (snd (Down s projectName options scheds netSchedule)).
            (\<exists>n. a = ContainerListCall n) \<or> a = NetworkListCall projectName
            \<or> (\<exists>nets. NetworkList s projectName = Inr nets
                  \<and> (\<exists>n \<in> set nets. a = EnsureNetworkDownCall (Network.ID n) (Network.Name n)))
            \<or> (\<exists>c \<in> set listed. declared project c \<and> touches s c a))
    \<and> (\<forall>orphan \<in> set listed. \<not> declared project orphan \<longrightarrow>
          (distinct (map Container.ID listed) \<longrightarrow>
             ContainerStopCall (Container.ID orphan)
               \<notin> set (snd (Down s projectName options scheds netSchedule))
             \<and> ContainerRemoveCall (Container.ID orphan)
               \<notin> set (snd (Down s projectName options scheds netSchedule)))
          \<and> (distinct (map (getCanonicalContainerName s) listed) \<longrightarrow>
               eventsNamed (eventName s orphan)
                 (snd (Down s projectName options scheds netSchedule)) = []))"
proof -
  let ?trace = "snd (Down s projectName options scheds netSchedule)"
  define ok where "ok a \<longleftrightarrow>
            (\<exists>n. a = ContainerListCall n) \<or> a = NetworkListCall projectName
            \<or> (\<exists>nets. NetworkList s projectName = Inr nets
                  \<and> (\<exists>n \<in> set nets. a = EnsureNetworkDownCall (Network.ID n) (Network.Name n)))
            \<or> (\<exists>c \<in> set listed. declared project c \<and> touches s c a)" for a
  from Down_trace [OF res list, of scheds netSchedule] obtain acts nacts where
    tr: "?trace = t0 @ ContainerListCall (Project.Name project) # acts @ nacts"
    and acts: "\<forall>a \<in> set acts. \<exists>c \<in> set listed.
            (declared project c \<or> RemoveOrphans options) \<and> touches s c a"
    and nacts: "nacts = [] \<or> nacts = snd (networkSweep s projectName netSchedule)"
    by blast
  have a0: "ok a" if "a \<in> set t0" for a
    using resolveProject_trace [OF res] that by (auto simp: ok_def)
  have a1: "ok a" if "a \<in> set acts" for a
    using acts keep that by (auto simp: ok_def)
  have a2: "ok a" if "a \<in> set nacts" for a
  proof -
    from nacts that have "a \<in> set (snd (networkSweep s projectName netSchedule))" by auto
    moreover obtain found where
      "snd (networkSweep s projectName netSchedule) = NetworkListCall projectName # found"
      and "\<forall>a \<in> set found. \<exists>nets. NetworkList s projectName = Inr nets
            \<and> (\<exists>n \<in> set nets. a = EnsureNetworkDownCall (Network.ID n) (Network.Name n))"
      using networkSweep_trace [of s projectName netSchedule] by blast
    ultimately show ?thesis by (auto simp: ok_def)
  qed
  have "ok (ContainerListCall (Project.Name project))" by (simp add: ok_def)
  with a0 a1 a2 have "\<forall>a \<in> set ?trace. ok a"
    by (auto simp: tr)
  then have all: "\<forall>a \<in> set ?trace.
            (\<exists>n. a = ContainerListCall n) \<or> a = NetworkListCall projectName
            \<or> (\<exists>nets. NetworkList s projectName = Inr nets
                  \<and> (\<exists>n \<in> set nets. a = EnsureNetworkDownCall (Network.ID n) (Network.Name n)))
            \<or> (\<exists>c \<in> set listed. declared project c \<and> touches s c a)"
    by (simp add: ok_def)
  have stop: "ContainerStopCall (Container.ID orphan) \<notin> set ?trace
      \<and> ContainerRemoveCall (Container.ID orphan) \<notin> set ?trace"
    if o: "orphan \<in> set listed" "\<not> declared project orphan"
      and d: "distinct (map Container.ID listed)" for orphan
  proof -
    have "\<not> (\<exists>c \<in> set listed. declared project c \<and> Container.ID c = Container.ID orphan)"
      using o d by (auto simp: distinct_map dest: inj_onD)
    with all show ?thesis by (fastforce simp: touches_def)
  qed
  have named: "eventsNamed (eventName s orphan) ?trace = []"
    if o: "orphan \<in> set listed" "\<not> declared project orphan"
      and d: "distinct (map (getCanonicalContainerName s) listed)" for orphan
  proof -
    have no: "\<not> (\<exists>c \<in> set listed. declared project c \<and> eventName s c = eventName s orphan)"
      using o d by (auto simp: distinct_map eventName_def dest: inj_onD)
    have "resource ev \<noteq> eventName s orphan" if "Event ev \<in> set ?trace" for ev
      using all that no by (fastforce simp: touches_def)
    moreover have "ev \<in> set (eventsOf as) \<longleftrightarrow> Event ev \<in> set as" for ev as
      by (induction as rule: eventsOf.induct) auto
    ultimately show ?thesis
      by (auto simp: eventsNamed_def filter_empty_conv)
  qed
  from all stop named show ?thesis by blast
qed


text \<open>
  The same at the project \<^verbatim>\<open>shop\<close> with a container of the undeclared service
  \<^verbatim>\<open>cache\<close>.
\<close>

theorem C8_witness:
  "ContainerStopCall ''shop_cache_1'' \<notin> set (snd (exDown [web1, db1, cache1] [] ''shop''))
   \<and> ContainerRemoveCall ''shop_cache_1'' \<notin> set (snd (exDown [web1, db1, cache1] [] ''shop''))
   \<and> eventsNamed ''Container shop_cache_1'' (snd (exDown [web1, db1, cache1] [] ''shop'')) = []"
proof -
  let ?s = "exService [web1, db1, cache1] exNetworks []"
  have name: "Project.Name shop = ''shop''" by (simp add: shop_def)
  have list: "ContainerList ?s (Project.Name shop) = Inr [web1, db1, cache1]"
    by (simp add: name shop_listing)
  have keep: "\<not> RemoveOrphans \<lparr>Project = Some shop, RemoveOrphans = False\<rparr>" by simp
  have orphan: "\<not> declared shop cache1"
    by (simp add: declared_def shop_def cache1_def label_exContainer)
  have ids: "distinct (map Container.ID [web1, db1, cache1])"
    by (simp add: web1_def db1_def cache1_def exContainer_def)
  have names: "distinct (map (getCanonicalContainerName ?s) [web1, db1, cache1])"
    by (simp add: web1_def db1_def cache1_def exContainer_def exService_def)
  have id: "Container.ID cache1 = ''shop_cache_1''"
    and ev: "eventName ?s cache1 = ''Container shop_cache_1''"
    by (simp_all add: cache1_def exContainer_def exService_def eventName_def)
  have mem: "cache1 \<in> set [web1, db1, cache1]" by simp
  note left = C8_orphans_untouched [OF shop_resolved list keep, of "''shop''" "[]" "[]",
      THEN conjunct2, THEN bspec, OF mem, THEN mp, OF orphan]
  from left [THEN conjunct1, THEN mp, OF ids] left [THEN conjunct2, THEN mp, OF names]
  show ?thesis
    unfolding exDown_def by (simp add: id ev)
qed

text \<open>
  C5. When the batch of a service returns an error, after the batches of the services
  before it in the walk returned none, \<^verbatim>\<open>Down\<close> returns that error and its last
  actions are those of the failing batch: what it did is the reconstruction, the
  listing, and actions aimed at containers of the services up to the failing one; no
  later service's containers, no orphan removal, no network listing or removal.
\<close>

theorem C5_abort_on_batch_failure:
  assumes res: "resolveProject s projectName options = (Inr project, t0)"
    and list: "ContainerList s (Project.Name project) = Inr listed"
    and order: "reverseOrder (Services project) = Some (before @ service # after)"
    and before: "runActions (serviceAction s) before
                   \<lparr>containers = listed, schedules = scheds,
                    performed = t0 @ [ContainerListCall (Project.Name project)]\<rparr> = (None, st)"
    and fail: "removeContainers s (fst (split (containers st) (isService (ServiceConfig.Name service))))
                 (case schedules st of [] \<Rightarrow> [] | schedule # _ \<Rightarrow> schedule) = (Some err, acts)"
  shows "Down s projectName options scheds netSchedule = (Some (Error err), performed st @ acts)
    \<and> (\<forall>a \<in> set (performed st @ acts).
          a \<in> set t0 \<or> a = ContainerListCall (Project.Name project)
          \<or> (\<exists>c \<in> set listed.
                label c serviceLabel \<in> set (map ServiceConfig.Name (before @ [service]))
                \<and> touches s c a))"
proof -
  let ?st0 = "\<lparr>containers = listed, schedules = scheds,
               performed = t0 @ [ContainerListCall (Project.Name project)]\<rparr>"
  let ?st' = "\<lparr>containers = snd (split (containers st) (isService (ServiceConfig.Name service))),
               schedules = tl (schedules st), performed = performed st @ acts\<rparr>"
  obtain matched others where
    parts: "split (containers st) (isService (ServiceConfig.Name service)) = (matched, others)"
    by (cases "split (containers st) (isService (ServiceConfig.Name service))") auto
  have act: "serviceAction s service st = (Some err, ?st')"
    using fail by (simp add: serviceAction_def parts)
  have "runActions (serviceAction s) (before @ service # after) ?st0 = (Some err, ?st')"
    by (simp add: runActions_append before act)
  then have walk: "InReverseDependencyOrder project (serviceAction s) ?st0 = (Some err, ?st')"
    by (simp add: InReverseDependencyOrder_def order)
  have down: "Down s projectName options scheds netSchedule = (Some (Error err), performed st @ acts)"
    by (simp add: Down_def res list walk)
  from runActions_effect [OF before] obtain acts0 where
    sub: "set (containers st) \<subseteq> set listed"
    and p0: "performed st = t0 @ ContainerListCall (Project.Name project) # acts0"
    and t0: "\<forall>a \<in> set acts0. \<exists>c \<in> set listed.
                label c serviceLabel \<in> set (map ServiceConfig.Name before) \<and> touches s c a"
    by auto
  from serviceAction_effect(2) [OF act] obtain acts' where
    "performed ?st' = performed st @ acts'"
    and t1': "\<forall>a \<in> set acts'. \<exists>c \<in> set (containers st).
                label c serviceLabel = ServiceConfig.Name service \<and> touches s c a"
    by blast
  then have t1: "\<forall>a \<in> set acts. \<exists>c \<in> set listed.
                label c serviceLabel = ServiceConfig.Name service \<and> touches s c a"
    using sub by auto
  have "\<forall>a \<in> set (performed st @ acts).
          a \<in> set t0 \<or> a = ContainerListCall (Project.Name project)
          \<or> (\<exists>c \<in> set listed.
                label c serviceLabel \<in> set (map ServiceConfig.Name (before @ [service]))
                \<and> touches s c a)"
    using t0 t1 by (fastforce simp: p0)
  with down show ?thesis by simp
qed

text \<open>
  The same at the project \<^verbatim>\<open>shop\<close> when the container of \<^verbatim>\<open>web\<close>, the first
  service of the walk, cannot be stopped: \<^verbatim>\<open>db\<close> is left alone although orphans
  were to be removed, and no network is listed.
\<close>

theorem C5_witness:
  "Down (exService [web1, db1] exNetworks [''shop_web_1'']) ''shop''
     \<lparr>Project = Some shop, RemoveOrphans = True\<rparr> [] [] =
   (Some (Error (Err ''cannot stop'')),
    [ContainerListCall ''shop'',
     Event (StoppingEvent ''Container shop_web_1''), ContainerStopCall ''shop_web_1'',
     Event (ErrorMessageEvent ''Container shop_web_1'' ''Error while Stopping'')])"
proof -
  let ?s = "exService [web1, db1] exNetworks [''shop_web_1'']"
  let ?st = "\<lparr>containers = [web1, db1], schedules = [],
              performed = [] @ [ContainerListCall (Project.Name shop)]\<rparr>"
  have name: "Project.Name shop = ''shop''" by (simp add: shop_def)
  have list: "ContainerList ?s (Project.Name shop) = Inr [web1, db1]"
    by (simp add: name exService_def web1_def db1_def label_exContainer)
  have before: "runActions (serviceAction ?s) [] ?st = (None, ?st)" by simp
  have batch: "fst (split (containers ?st) (isService ''web'')) = [web1]"
    by (simp add: split_filter isService_def web1_def db1_def label_exContainer)
  have fail: "removeContainers ?s
      (fst (split (containers ?st)
             (isService (ServiceConfig.Name \<lparr>ServiceConfig.Name = ''web'', DependsOn = [''db'']\<rparr>))))
      (case schedules ?st of [] \<Rightarrow> [] | schedule # _ \<Rightarrow> schedule) =
     (Some (Err ''cannot stop''),
      [Event (StoppingEvent ''Container shop_web_1''), ContainerStopCall ''shop_web_1'',
       Event (ErrorMessageEvent ''Container shop_web_1'' ''Error while Stopping'')])"
    using batch web1_cannot_stop by simp
  from C5_abort_on_batch_failure [OF shop_resolved list shop_order before fail,
      where projectName = "''shop''" and netSchedule = "[]"]
  show ?thesis by (simp add: name)
qed

text \<open>
  C9. In every run of \<^verbatim>\<open>Down\<close> that gets past the reconstruction, the containers are
  listed once, by the name of the project in the options, and any network listing is by
  the \<^verbatim>\<open>projectName\<close> argument. Every container stopped or removed is one listed for
  the project's name and every network taken down is one listed for \<^verbatim>\<open>projectName\<close>;
  so when the two names differ, containers and networks of different projects are torn
  down.
\<close>

theorem C9_listing_filters:
  assumes res: "resolveProject s projectName options = (Inr project, t0)"
  shows "\<exists>rest. snd (Down s projectName options scheds netSchedule) =
                   t0 @ ContainerListCall (Project.Name project) # rest
     \<and> (\<forall>a \<in> set rest.
           (\<forall>n. a \<noteq> ContainerListCall n)
         \<and> (\<forall>n. a = NetworkListCall n \<longrightarrow> n = projectName)
         \<and> (\<forall>i. a = ContainerStopCall i \<or> a = ContainerRemoveCall i \<longrightarrow>
                (\<exists>listed. ContainerList s (Project.Name project) = Inr listed
                    \<and> i \<in> set (map Container.ID listed)))
         \<and> (\<forall>i n. a = EnsureNetworkDownCall i n \<longrightarrow>
                (\<exists>nets. NetworkList s projectName = Inr nets
                    \<and> \<lparr>Network.ID = i, Name = n\<rparr> \<in> set nets)))"
proof (cases "ContainerList s (Project.Name project)")
  case (Inl err)
  with res have "snd (Down s projectName options scheds netSchedule) =
      t0 @ ContainerListCall (Project.Name project) # []"
    by (simp add: Down_def)
  then show ?thesis by (intro exI [of _ "[]"]) simp
next
  case (Inr listed)
  define ok where "ok a \<longleftrightarrow>
           (\<forall>n. a \<noteq> ContainerListCall n)
         \<and> (\<forall>n. a = NetworkListCall n \<longrightarrow> n = projectName)
         \<and> (\<forall>i. a = ContainerStopCall i \<or> a = ContainerRemoveCall i \<longrightarrow>
                (\<exists>listed. ContainerList s (Project.Name project) = Inr listed
                    \<and> i \<in> set (map Container.ID listed)))
         \<and> (\<forall>i n. a = EnsureNetworkDownCall i n \<longrightarrow>
                (\<exists>nets. NetworkList s projectName = Inr nets
                    \<and> \<lparr>Network.ID = i, Name = n\<rparr> \<in> set nets))" for a
  from Down_trace [OF res Inr, of scheds netSchedule] obtain acts nacts where
    tr: "snd (Down s projectName options scheds netSchedule) =
           t0 @ ContainerListCall (Project.Name project) # acts @ nacts"
    and acts: "\<forall>a \<in> set acts. \<exists>c \<in> set listed.
            (declared project c \<or> RemoveOrphans options) \<and> touches s c a"
    and nacts: "nacts = [] \<or> nacts = snd (networkSweep s projectName netSchedule)"
    by blast
  have a1: "ok a" if "a \<in> set acts" for a
  proof -
    from acts that obtain c where "c \<in> set listed" "touches s c a" by blast
    with Inr show ?thesis
      by (cases a) (auto simp: ok_def touches_def)
  qed
  have a2: "ok a" if "a \<in> set nacts" for a
  proof -
    obtain found where
      sweep: "snd (networkSweep s projectName netSchedule) = NetworkListCall projectName # found"
      and found: "\<forall>a \<in> set found. \<exists>nets. NetworkList s projectName = Inr nets
            \<and> (\<exists>n \<in> set nets. a = EnsureNetworkDownCall (Network.ID n) (Network.Name n))"
      using networkSweep_trace [of s projectName netSchedule] by blast
    from nacts that have mem: "a \<in> set (NetworkListCall projectName # found)"
      by (auto simp: sweep)
    show ?thesis
    proof (cases "a = NetworkListCall projectName")
      case True
      then show ?thesis by (simp add: ok_def)
    next
      case False
      with mem have "a \<in> set found" by simp
      with found obtain nets n where nets: "NetworkList s projectName = Inr nets"
        and n: "n \<in> set nets" and a: "a = EnsureNetworkDownCall (Network.ID n) (Network.Name n)"
        by blast
      have whole: "\<lparr>Network.ID = Network.ID n, Name = Network.Name n\<rparr> = n" by simp
      have "\<lparr>Network.ID = Network.ID n, Name = Network.Name n\<rparr> \<in> set nets"
        unfolding whole by (rule n)
      with nets a show ?thesis by (simp add: ok_def)
    qed
  qed
  from a1 a2 have "\<forall>a \<in> set (acts @ nacts). ok a" by auto
  with tr show ?thesis
    unfolding ok_def by (intro exI [of _ "acts @ nacts"]) simp
qed

text \<open>
  The same for the project \<^verbatim>\<open>shop\<close> handed over with the project name
  \<^verbatim>\<open>store\<close>: the containers of \<^verbatim>\<open>shop\<close> are listed, the networks of \<^verbatim>\<open>store\<close>.
\<close>

theorem C9_witness:
  "Project.Name shop = ''shop''
   \<and> hd (snd (exDown [web1, db1, cache1] [] ''store'')) = ContainerListCall ''shop''
   \<and> ContainerListCall ''store'' \<notin> set (snd (exDown [web1, db1, cache1] [] ''store''))
   \<and> NetworkListCall ''shop'' \<notin> set (snd (exDown [web1, db1, cache1] [] ''store''))
   \<and> EnsureNetworkDownCall ''n1'' ''shop_default''
       \<notin> set (snd (exDown [web1, db1, cache1] [] ''store''))"
proof -
  let ?s = "exService [web1, db1, cache1] exNetworks []"
  have name: "Project.Name shop = ''shop''" by (simp add: shop_def)
  have nets: "NetworkList ?s ''store'' = Inr [\<lparr>Network.ID = ''n2'', Name = ''store_default''\<rparr>]"
    by (simp add: exService_def exNetworks_def)
  from C9_listing_filters [OF shop_resolved, of ?s "''store''" False "[]" "[]"]
  obtain rest where
    tr: "snd (exDown [web1, db1, cache1] [] ''store'') = ContainerListCall ''shop'' # rest"
    and rest: "\<forall>a \<in> set rest.
           (\<forall>n. a \<noteq> ContainerListCall n)
         \<and> (\<forall>n. a = NetworkListCall n \<longrightarrow> n = ''store'')
         \<and> (\<forall>i n. a = EnsureNetworkDownCall i n \<longrightarrow>
                (\<exists>nets. NetworkList ?s ''store'' = Inr nets
                    \<and> \<lparr>Network.ID = i, Name = n\<rparr> \<in> set nets))"
    unfolding exDown_def name by auto
  have "ContainerListCall ''store'' \<notin> set rest" using rest by blast
  moreover have "NetworkListCall ''shop'' \<notin> set rest" using rest by fastforce
  moreover have "EnsureNetworkDownCall ''n1'' ''shop_default'' \<notin> set rest"
  proof
    assume "EnsureNetworkDownCall ''n1'' ''shop_default'' \<in> set rest"
    with rest have "\<exists>nets. NetworkList ?s ''store'' = Inr nets
        \<and> \<lparr>Network.ID = ''n1'', Name = ''shop_default''\<rparr> \<in> set nets"
      by blast
    with nets show False by simp
  qed
  ultimately show ?thesis by (simp add: tr name)
qed

section \<open>The goroutines of removeContainers\<close>

text \<open>
  C1 says that in every unit of concurrent work the container stopped is the container
  removed. Line 110 copies the loop variable into \<^verbatim>\<open>toDelete\<close> for the goroutine,
  and the removal uses the copy, but line 113 hands \<^verbatim>\<open>stopContainers\<close> the loop
  variable \<^verbatim>\<open>container\<close> itself, which the goroutine reads when it runs. On a batch
  of two containers whose goroutines run after the loop has ended, the goroutine of
  \<^verbatim>\<open>shop_web_1\<close> stops \<^verbatim>\<open>shop_web_2\<close> and then removes \<^verbatim>\<open>shop_web_1\<close>, which
  nobody stopped: after its first turn it holds \<^verbatim>\<open>shop_web_1\<close> to delete and
  \<^verbatim>\<open>shop_web_2\<close> to stop.
\<close>

theorem C1_stops_another_container:
  "removeContainers (exService [web1, web2] exNetworks []) [web1, web2] afterLoop =
     (None,
      [Event (StoppingEvent ''Container shop_web_2''), ContainerStopCall ''shop_web_2'',
       Event (StoppedEvent ''Container shop_web_2''),
       Event (RemovingEvent ''Container shop_web_1''), ContainerRemoveCall ''shop_web_1'',
       Event (RemovedEvent ''Container shop_web_1''),
       Event (StoppingEvent ''Container shop_web_2''), ContainerStopCall ''shop_web_2'',
       Event (StoppedEvent ''Container shop_web_2''),
       Event (RemovingEvent ''Container shop_web_2''), ContainerRemoveCall ''shop_web_2'',
       Event (RemovedEvent ''Container shop_web_2'')])
   \<and> goroutines
        (foldl (step spawnRemove (stepRemove (exService [web1, web2] exNetworks [])))
           \<lparr>loopVar = None, pending = [web1, web2], goroutines = [], firstErr = None, trace = []\<rparr>
           (afterLoop @ [Goroutine 0])) =
       [\<lparr>toDelete = web1, at = AtStopping web2\<rparr>, \<lparr>toDelete = web2, at = Started\<rparr>]"
proof
  show "removeContainers (exService [web1, web2] exNetworks []) [web1, web2] afterLoop =
     (None,
      [Event (StoppingEvent ''Container shop_web_2''), ContainerStopCall ''shop_web_2'',
       Event (StoppedEvent ''Container shop_web_2''),
       Event (RemovingEvent ''Container shop_web_1''), ContainerRemoveCall ''shop_web_1'',
       Event (RemovedEvent ''Container shop_web_1''),
       Event (StoppingEvent ''Container shop_web_2''), ContainerStopCall ''shop_web_2'',
       Event (StoppedEvent ''Container shop_web_2''),
       Event (RemovingEvent ''Container shop_web_2''), ContainerRemoveCall ''shop_web_2'',
       Event (RemovedEvent ''Container shop_web_2'')])"
    by code_simp
  show "goroutines
        (foldl (step spawnRemove (stepRemove (exService [web1, web2] exNetworks [])))
           \<lparr>loopVar = None, pending = [web1, web2], goroutines = [], firstErr = None, trace = []\<rparr>
           (afterLoop @ [Goroutine 0])) =
       [\<lparr>toDelete = web1, at = AtStopping web2\<rparr>, \<lparr>toDelete = web2, at = Started\<rparr>]"
    by (simp add: afterLoop_def iterate_def advance_def stepRemove_def spawnRemove_def)
qed

text \<open>
  C3 says that the events of one resource name come in the order stopping, stopped,
  removing, removed, or a beginning of it ended by one error event. In the run above
  the events that name \<^verbatim>\<open>shop_web_1\<close> are removing and removed only, and those that
  name \<^verbatim>\<open>shop_web_2\<close> are stopping and stopped twice before removing and removed.
\<close>

theorem C3_events_out_of_order:
  "eventsNamed ''Container shop_web_1''
     (snd (removeContainers (exService [web1, web2] exNetworks []) [web1, web2] afterLoop)) =
     [RemovingEvent ''Container shop_web_1'', RemovedEvent ''Container shop_web_1'']
   \<and> \<not> inLifecycleOrder ''Container shop_web_1''
        (eventsNamed ''Container shop_web_1''
          (snd (removeContainers (exService [web1, web2] exNetworks []) [web1, web2] afterLoop)))
   \<and> eventsNamed ''Container shop_web_2''
     (snd (removeContainers (exService [web1, web2] exNetworks []) [web1, web2] afterLoop)) =
     [StoppingEvent ''Container shop_web_2'', StoppedEvent ''Container shop_web_2'',
      StoppingEvent ''Container shop_web_2'', StoppedEvent ''Container shop_web_2'',
      RemovingEvent ''Container shop_web_2'', RemovedEvent ''Container shop_web_2'']
   \<and> \<not> inLifecycleOrder ''Container shop_web_2''
        (eventsNamed ''Container shop_web_2''
          (snd (removeContainers (exService [web1, web2] exNetworks []) [web1, web2] afterLoop)))"
  by code_simp

text \<open>
  C4 says that when the stop of a container fails, no removing or removed event is
  emitted for it. On a batch of three containers of which \<^verbatim>\<open>shop_web_2\<close> cannot be
  stopped, with every goroutine one iteration late, the goroutine of \<^verbatim>\<open>shop_web_1\<close>
  asks to stop \<^verbatim>\<open>shop_web_2\<close>, emits the error event for it and fails the batch, while
  the goroutine of \<^verbatim>\<open>shop_web_2\<close> stops \<^verbatim>\<open>shop_web_3\<close> and goes on to remove
  \<^verbatim>\<open>shop_web_2\<close>, with its removing and removed events.
\<close>

theorem C4_removed_after_failed_stop:
  "removeContainers (exService [web1, web2, web3] exNetworks [''shop_web_2''])
     [web1, web2, web3] lagging =
     (Some (Err ''cannot stop''),
      [Event (StoppingEvent ''Container shop_web_2''), ContainerStopCall ''shop_web_2'',
       Event (ErrorMessageEvent ''Container shop_web_2'' ''Error while Stopping''),
       Event (StoppingEvent ''Container shop_web_3''), ContainerStopCall ''shop_web_3'',
       Event (StoppedEvent ''Container shop_web_3''),
       Event (RemovingEvent ''Container shop_web_2''), ContainerRemoveCall ''shop_web_2'',
       Event (RemovedEvent ''Container shop_web_2''),
       Event (StoppingEvent ''Container shop_web_3''), ContainerStopCall ''shop_web_3'',
       Event (StoppedEvent ''Container shop_web_3''),
       Event (RemovingEvent ''Container shop_web_3''), ContainerRemoveCall ''shop_web_3'',
       Event (RemovedEvent ''Container shop_web_3'')])"
  by code_simp

end
